theory Spec2Isabelle
  imports Complex_Main "HOL-Library.Word" "HOL-Library.Sublist"
begin

section \<open>PolyArt: image to low-polygon mesh, and its animation\<close>

text \<open>
  The development follows \<^verbatim>\<open>PolygonArtCanvas.tsx\<close> (the revision with the adaptive grid
  and the Delaunay refinement loop). JavaScript numbers are modelled by \<^typ>\<open>real\<close>
  where the source computes with fractions and by \<^typ>\<open>int\<close> where the source only ever
  holds integers (the floored image dimensions, loop counters, buffer indices). The
  rounding of IEEE doubles is modelled where a decision of the program depends on it:
  in the mesh refinement, which compares computed lengths and areas with thresholds,
  the arithmetic of the machine is a parameter. Elsewhere numbers are exact. A read
  outside an array is \<^verbatim>\<open>undefined\<close> in JavaScript; it is the value \<^const>\<open>None\<close> here.
\<close>

type_synonym point = "real \<times> real"
type_synonym u8 = "8 word"

subsection \<open>Color sampler: \<^verbatim>\<open>getMedianColor\<close>\<close>

text \<open>\<^verbatim>\<open>data[idx]\<close> on a \<^verbatim>\<open>Uint8ClampedArray\<close>: the byte, or \<^verbatim>\<open>undefined\<close> out of range.\<close>

definition readByte :: "u8 list \<Rightarrow> int \<Rightarrow> u8 option" where
  "readByte data idx =
     (if 0 \<le> idx \<and> idx < int (length data) then Some (data ! nat idx) else None)"

text \<open>
  \<^verbatim>\<open>xs.sort((a, b) => a - b)\<close> on an array of numbers and \<^verbatim>\<open>undefined\<close>: the numbers
  ascending, every \<^verbatim>\<open>undefined\<close> moved to the end (the comparator is never called on it).
\<close>

definition sortAscending :: "u8 option list \<Rightarrow> u8 option list" where
  "sortAscending xs =
     map Some (sort (List.map_filter (\<lambda>x. x) xs)) @ filter (\<lambda>x. x = None) xs"

record medianColor =
  col_r :: "u8 option"
  col_g :: "u8 option"
  col_b :: "u8 option"
  col_cx :: int
  col_cy :: int

definition samples :: "point \<Rightarrow> point \<Rightarrow> point \<Rightarrow> point list" where
  "samples p1 p2 p3 =
     (let cx = (fst p1 + fst p2 + fst p3) / 3;
          cy = (snd p1 + snd p2 + snd p3) / 3
      in [(cx, cy),
          ((2 * fst p1 + fst p2 + fst p3) / 4, (2 * snd p1 + snd p2 + snd p3) / 4),
          ((fst p1 + 2 * fst p2 + fst p3) / 4, (snd p1 + 2 * snd p2 + snd p3) / 4),
          ((fst p1 + fst p2 + 2 * fst p3) / 4, (snd p1 + snd p2 + 2 * snd p3) / 4),
          (cx, cy)])"

definition safeX :: "int \<Rightarrow> point \<Rightarrow> int" where
  "safeX width s = max 0 (min (width - 1) \<lfloor>fst s\<rfloor>)"

definition safeY :: "int \<Rightarrow> point \<Rightarrow> int" where
  "safeY height s = max 0 (min (height - 1) \<lfloor>snd s\<rfloor>)"

definition sampleIdx :: "int \<Rightarrow> int \<Rightarrow> point \<Rightarrow> int" where
  "sampleIdx width height s = (safeY height s * width + safeX width s) * 4"

definition getMedianColor ::
  "point \<Rightarrow> point \<Rightarrow> point \<Rightarrow> u8 list \<Rightarrow> int \<Rightarrow> int \<Rightarrow> medianColor" where
  "getMedianColor p1 p2 p3 data width height =
     (let cx = (fst p1 + fst p2 + fst p3) / 3;
          cy = (snd p1 + snd p2 + snd p3) / 3;
          idxs = map (sampleIdx width height) (samples p1 p2 p3);
          rs = map (\<lambda>idx. readByte data idx) idxs;
          gs = map (\<lambda>idx. readByte data (idx + 1)) idxs;
          bs = map (\<lambda>idx. readByte data (idx + 2)) idxs
      in \<lparr> col_r = sortAscending rs ! 2,
           col_g = sortAscending gs ! 2,
           col_b = sortAscending bs ! 2,
           col_cx = \<lfloor>cx\<rfloor>,
           col_cy = \<lfloor>cy\<rfloor> \<rparr>)"


subsection \<open>Feature point sampler: the deduplicating \<^verbatim>\<open>addPoint\<close>\<close>

text \<open>
  \<^verbatim>\<open>x.toFixed(1)\<close>: the sign is split off, the magnitude is rounded to the nearest tenth
  (the larger one on a tie), and magnitudes from \<open>10\<^sup>2\<^sup>1\<close> on are printed in exponent
  notation instead. The printed string is determined by, and determines, the sign flag
  and the number of tenths (or the number itself in exponent notation), so the key is
  kept in that form rather than as characters.
\<close>

datatype fixed1 = Fixed bool int | Exponential real

definition toFixed1 :: "real \<Rightarrow> fixed1" where
  "toFixed1 x =
     (if 10 ^ 21 \<le> \<bar>x\<bar> then Exponential x
      else Fixed (x < 0) \<lfloor>10 * \<bar>x\<bar> + 1 / 2\<rfloor>)"

type_synonym key = "fixed1 \<times> fixed1"

definition pointKey :: "real \<Rightarrow> real \<Rightarrow> key" where
  "pointKey x y = (toFixed1 x, toFixed1 y)"

text \<open>
  The sampler's mutable state: the key set \<^verbatim>\<open>pointsMap\<close>, the array \<^verbatim>\<open>points\<close>, and
  the number of \<^verbatim>\<open>Math.random()\<close> calls made so far (the \<open>k\<close>-th call returns
  \<open>rand k\<close> for a sequence \<open>rand\<close> supplied from outside).
\<close>

record sampler =
  pointsMap :: "key set"
  points :: "point list"
  randomCalls :: nat

definition emptySampler :: sampler where
  "emptySampler = \<lparr> pointsMap = {}, points = [], randomCalls = 0 \<rparr>"

definition addPoint :: "real \<Rightarrow> real \<Rightarrow> sampler \<Rightarrow> sampler" where
  "addPoint x y st =
     (let key = pointKey x y
      in if key \<notin> pointsMap st
         then st\<lparr> pointsMap := insert key (pointsMap st), points := points st @ [(x, y)] \<rparr>
         else st)"

definition addCorners :: "int \<Rightarrow> int \<Rightarrow> sampler \<Rightarrow> sampler" where
  "addCorners width height st =
     addPoint (real_of_int width) (real_of_int height)
       (addPoint 0 (real_of_int height)
         (addPoint (real_of_int width) 0
           (addPoint 0 0 st)))"

subsection \<open>Border lattice\<close>

text \<open>
  \<^verbatim>\<open>step\<close> is a local constant of \<^verbatim>\<open>processImage\<close>; the two loops below recompute it
  from \<open>q\<close>, which makes their termination (the step is at least 10) visible.
\<close>

definition borderStep :: "real \<Rightarrow> int" where
  "borderStep q = max 10 \<lfloor>100 - q * 90\<rfloor>"

function borderTopBottom :: "real \<Rightarrow> int \<Rightarrow> int \<Rightarrow> int \<Rightarrow> sampler \<Rightarrow> sampler" where
  "borderTopBottom q width height i st =
     (if i \<le> width
      then borderTopBottom q width height (i + borderStep q)
             (addPoint (real_of_int i) (real_of_int height)
               (addPoint (real_of_int i) 0 st))
      else st)"
  by pat_completeness auto
termination
  by (relation "measure (\<lambda>(q, width, height, i, st). nat (width + 1 - i))")
     (auto simp: borderStep_def)

function borderLeftRight :: "real \<Rightarrow> int \<Rightarrow> int \<Rightarrow> int \<Rightarrow> sampler \<Rightarrow> sampler" where
  "borderLeftRight q width height i st =
     (if i \<le> height
      then borderLeftRight q width height (i + borderStep q)
             (addPoint (real_of_int width) (real_of_int i)
               (addPoint 0 (real_of_int i) st))
      else st)"
  by pat_completeness auto
termination
  by (relation "measure (\<lambda>(q, width, height, i, st). nat (height + 1 - i))")
     (auto simp: borderStep_def)

definition borderLattice :: "real \<Rightarrow> int \<Rightarrow> int \<Rightarrow> sampler \<Rightarrow> sampler" where
  "borderLattice q width height st =
     borderLeftRight q width height 0 (borderTopBottom q width height 0 st)"

subsection \<open>Edge field: the Sobel pass\<close>

text \<open>
  A cell of the \<^verbatim>\<open>Float32Array\<close> is a number or \<^verbatim>\<open>NaN\<close>; \<^verbatim>\<open>NaN\<close> is \<^const>\<open>None\<close>.
  Arithmetic on \<^verbatim>\<open>undefined\<close> or \<^verbatim>\<open>NaN\<close> gives \<^verbatim>\<open>NaN\<close>.
\<close>

type_synonym num = "real option"

definition nanAdd :: "num \<Rightarrow> num \<Rightarrow> num" where
  "nanAdd a b = (case a of None \<Rightarrow> None | Some x \<Rightarrow> (case b of None \<Rightarrow> None | Some y \<Rightarrow> Some (x + y)))"

definition nanMul :: "num \<Rightarrow> num \<Rightarrow> num" where
  "nanMul a b = (case a of None \<Rightarrow> None | Some x \<Rightarrow> (case b of None \<Rightarrow> None | Some y \<Rightarrow> Some (x * y)))"

definition nanSqrt :: "num \<Rightarrow> num" where
  "nanSqrt a = (case a of None \<Rightarrow> None | Some x \<Rightarrow> (if x < 0 then None else Some (sqrt x)))"

definition byteNum :: "u8 option \<Rightarrow> num" where
  "byteNum v = map_option (\<lambda>b. real (unat b)) v"

definition getGray :: "u8 list \<Rightarrow> int \<Rightarrow> int \<Rightarrow> int \<Rightarrow> int \<Rightarrow> int \<Rightarrow> num" where
  "getGray blurredData width x y ox oy =
     (let idx = ((y + oy) * width + (x + ox)) * 4
      in nanAdd (nanAdd (nanMul (byteNum (readByte blurredData idx)) (Some 0.299))
                        (nanMul (byteNum (readByte blurredData (idx + 1))) (Some 0.587)))
                (nanMul (byteNum (readByte blurredData (idx + 2))) (Some 0.114)))"

definition sobelGx :: "u8 list \<Rightarrow> int \<Rightarrow> int \<Rightarrow> int \<Rightarrow> num" where
  "sobelGx blurredData width x y =
     (let g = getGray blurredData width x y
      in nanAdd (nanAdd (nanAdd (nanAdd (nanAdd
           (nanMul (Some (- 1)) (g (- 1) (- 1))) (nanMul (Some 1) (g 1 (- 1))))
           (nanMul (Some (- 2)) (g (- 1) 0))) (nanMul (Some 2) (g 1 0)))
           (nanMul (Some (- 1)) (g (- 1) 1))) (nanMul (Some 1) (g 1 1)))"

definition sobelGy :: "u8 list \<Rightarrow> int \<Rightarrow> int \<Rightarrow> int \<Rightarrow> num" where
  "sobelGy blurredData width x y =
     (let g = getGray blurredData width x y
      in nanAdd (nanAdd (nanAdd (nanAdd (nanAdd
           (nanMul (Some (- 1)) (g (- 1) (- 1))) (nanMul (Some (- 2)) (g 0 (- 1))))
           (nanMul (Some (- 1)) (g 1 (- 1)))) (nanMul (Some 1) (g (- 1) 1)))
           (nanMul (Some 2) (g 0 1))) (nanMul (Some 1) (g 1 1)))"

definition sobelGrad :: "u8 list \<Rightarrow> int \<Rightarrow> int \<Rightarrow> int \<Rightarrow> num" where
  "sobelGrad blurredData width x y =
     (let gx = sobelGx blurredData width x y;
          gy = sobelGy blurredData width x y
      in nanSqrt (nanAdd (nanMul gx gx) (nanMul gy gy)))"

text \<open>
  \<^verbatim>\<open>sobelData[i] = v\<close> on a typed array: a write outside the array is dropped.
\<close>

definition writeCell :: "num list \<Rightarrow> int \<Rightarrow> num \<Rightarrow> num list" where
  "writeCell arr idx v =
     (if 0 \<le> idx \<and> idx < int (length arr) then arr[nat idx := v] else arr)"

definition sobelRow :: "u8 list \<Rightarrow> int \<Rightarrow> int \<Rightarrow> num list \<Rightarrow> num list" where
  "sobelRow blurredData width y sobelData =
     fold (\<lambda>x arr. writeCell arr (y * width + x) (sobelGrad blurredData width x y))
          [1 .. width - 2] sobelData"

definition sobelPass :: "u8 list \<Rightarrow> int \<Rightarrow> int \<Rightarrow> num list" where
  "sobelPass blurredData width height =
     fold (sobelRow blurredData width) [1 .. height - 2]
          (replicate (nat (width * height)) (Some 0))"


subsection \<open>Adaptive grid: \<^verbatim>\<open>processCell\<close>\<close>

text \<open>
  \<^verbatim>\<open>sobelData[i]\<close>: out of range it is \<^verbatim>\<open>undefined\<close>, which like \<^verbatim>\<open>NaN\<close> fails every
  comparison, so both are \<^const>\<open>None\<close>.
\<close>

definition readCell :: "num list \<Rightarrow> int \<Rightarrow> num" where
  "readCell arr idx =
     (if 0 \<le> idx \<and> idx < int (length arr) then arr ! nat idx else None)"

definition threshold :: "real \<Rightarrow> real" where
  "threshold q = 10 + (1 - q) * 40"

definition baseCellSize :: "real \<Rightarrow> int" where
  "baseCellSize q = max 10 \<lfloor>50 - q * 40\<rfloor>"

definition randomProb :: "real \<Rightarrow> real" where
  "randomProb q = 0.01 + q * 0.09"

definition salientThreshold :: "real \<Rightarrow> real" where
  "salientThreshold q = threshold q + 30 + (1 - q) * 20"

definition maxDepth :: int where
  "maxDepth = 2"

text \<open>The scan of one cell for its strongest gradient: \<open>(maxGrad, maxX, maxY)\<close>.\<close>

definition cellScanStep :: "num list \<Rightarrow> int \<Rightarrow> int \<Rightarrow> int \<Rightarrow> real \<times> int \<times> int \<Rightarrow> real \<times> int \<times> int" where
  "cellScanStep sobelData width y x acc =
     (case acc of (maxGrad, maxX, maxY) \<Rightarrow>
        (case readCell sobelData (y * width + x) of
           None \<Rightarrow> (maxGrad, maxX, maxY)
         | Some grad \<Rightarrow> if grad > maxGrad then (grad, x, y) else (maxGrad, maxX, maxY)))"

definition cellScan :: "num list \<Rightarrow> int \<Rightarrow> int \<Rightarrow> int \<Rightarrow> int \<Rightarrow> int \<Rightarrow> real \<times> int \<times> int" where
  "cellScan sobelData width height cx cy cellSize =
     (let endY = min (cy + cellSize) (height - 1);
          endX = min (cx + cellSize) (width - 1)
      in fold (\<lambda>y acc. fold (cellScanStep sobelData width y) [cx .. endX - 1] acc)
              [cy .. endY - 1] (0, - 1, - 1))"

text \<open>
  The flat-region branch: \<^verbatim>\<open>Math.random()\<close> is called once for the test (only when
  \<^verbatim>\<open>depth === 0\<close>, by short-circuit evaluation) and twice more for the jitter.
\<close>

definition flatCell :: "(nat \<Rightarrow> real) \<Rightarrow> real \<Rightarrow> int \<Rightarrow> int \<Rightarrow> int \<Rightarrow> int \<Rightarrow> int \<Rightarrow> int \<Rightarrow> sampler \<Rightarrow> sampler" where
  "flatCell rand q width height cx cy cellSize depth st =
     (if depth = 0
      then let k = randomCalls st
           in if rand k < randomProb q
              then let jitterX = (rand (k + 1) - 0.5) * real_of_int cellSize;
                       jitterY = (rand (k + 2) - 0.5) * real_of_int cellSize
                   in addPoint
                        (max 0 (min (real_of_int width)
                                  (real_of_int cx + real_of_int cellSize / 2 + jitterX)))
                        (max 0 (min (real_of_int height)
                                  (real_of_int cy + real_of_int cellSize / 2 + jitterY)))
                        (st\<lparr> randomCalls := k + 3 \<rparr>)
              else st\<lparr> randomCalls := k + 1 \<rparr>
      else st)"

function processCell ::
  "(nat \<Rightarrow> real) \<Rightarrow> real \<Rightarrow> int \<Rightarrow> int \<Rightarrow> num list \<Rightarrow> int \<Rightarrow> int \<Rightarrow> int \<Rightarrow> int \<Rightarrow> sampler \<Rightarrow> sampler" where
  "processCell rand q width height sobelData cx cy cellSize depth st =
     (case cellScan sobelData width height cx cy cellSize of (maxGrad, maxX, maxY) \<Rightarrow>
        if maxGrad > salientThreshold q \<and> depth < maxDepth \<and> cellSize > 6
        then let half = cellSize div 2;
                 st1 = processCell rand q width height sobelData cx cy half (depth + 1) st;
                 st2 = processCell rand q width height sobelData (cx + half) cy half (depth + 1) st1;
                 st3 = processCell rand q width height sobelData cx (cy + half) half (depth + 1) st2
             in processCell rand q width height sobelData (cx + half) (cy + half) half (depth + 1) st3
        else if maxGrad > threshold q
        then addPoint (real_of_int maxX) (real_of_int maxY) st
        else flatCell rand q width height cx cy cellSize depth st)"
  by pat_completeness auto
termination
  by (relation "measure (\<lambda>(rand, q, width, height, sobelData, cx, cy, cellSize, depth, st).
                  nat (maxDepth - depth))") auto

function gridRow ::
  "(nat \<Rightarrow> real) \<Rightarrow> real \<Rightarrow> int \<Rightarrow> int \<Rightarrow> num list \<Rightarrow> int \<Rightarrow> int \<Rightarrow> sampler \<Rightarrow> sampler" where
  "gridRow rand q width height sobelData y x st =
     (if x < width
      then gridRow rand q width height sobelData y (x + baseCellSize q)
             (processCell rand q width height sobelData x y (baseCellSize q) 0 st)
      else st)"
  by pat_completeness auto
termination
  by (relation "measure (\<lambda>(rand, q, width, height, sobelData, y, x, st). nat (width - x))")
     (auto simp: baseCellSize_def)

function gridRows ::
  "(nat \<Rightarrow> real) \<Rightarrow> real \<Rightarrow> int \<Rightarrow> int \<Rightarrow> num list \<Rightarrow> int \<Rightarrow> sampler \<Rightarrow> sampler" where
  "gridRows rand q width height sobelData y st =
     (if y < height
      then gridRows rand q width height sobelData (y + baseCellSize q)
             (gridRow rand q width height sobelData y 0 st)
      else st)"
  by pat_completeness auto
termination
  by (relation "measure (\<lambda>(rand, q, width, height, sobelData, y, st). nat (height - y))")
     (auto simp: baseCellSize_def)

subsection \<open>Mesh refinement\<close>

text \<open>
  \<^verbatim>\<open>Delaunator.from\<close> is a library; it enters as a parameter \<open>delaunay\<close> that maps the
  point array to the flat array of triangle corner indices. \<^verbatim>\<open>currentPoints\<close> starts
  as a copy of \<^verbatim>\<open>points\<close>, which is not used again, so the refinement works on the
  \<^const>\<open>points\<close> field; \<open>added\<close> is the counter of the running pass.

  The split test compares computed numbers with thresholds, so here the arithmetic of
  the machine is part of the model. It enters as a parameter too: \<open>m_round\<close> is the
  rounding that every \<^verbatim>\<open>+\<close>, \<^verbatim>\<open>-\<close>, \<^verbatim>\<open>*\<close>, \<^verbatim>\<open>/\<close> and every decimal literal undergoes,
  \<open>m_sqrt\<close> and \<open>m_hypot\<close> are \<^verbatim>\<open>Math.sqrt\<close> and \<^verbatim>\<open>Math.hypot\<close> as the engine computes them.
  Nothing is assumed of the three (the language standard leaves \<^verbatim>\<open>Math.hypot\<close> to the
  implementation); comparisons, \<^verbatim>\<open>Math.max\<close> and \<^verbatim>\<open>Math.min\<close> are exact. The literals
  0, 1, 2, 4 and 50 are integers and are not rounded. Coordinates lie within the image,
  so every computed number is finite.
\<close>

record machine =
  m_round :: "real \<Rightarrow> real"
  m_sqrt :: "real \<Rightarrow> real"
  m_hypot :: "real \<Rightarrow> real \<Rightarrow> real"

definition fadd :: "machine \<Rightarrow> real \<Rightarrow> real \<Rightarrow> real" where
  "fadd fp a b = m_round fp (a + b)"

definition fsub :: "machine \<Rightarrow> real \<Rightarrow> real \<Rightarrow> real" where
  "fsub fp a b = m_round fp (a - b)"

definition fmul :: "machine \<Rightarrow> real \<Rightarrow> real \<Rightarrow> real" where
  "fmul fp a b = m_round fp (a * b)"

definition fdiv :: "machine \<Rightarrow> real \<Rightarrow> real \<Rightarrow> real" where
  "fdiv fp a b = m_round fp (a / b)"

definition nthOpt :: "'a list \<Rightarrow> nat \<Rightarrow> 'a option" where
  "nthOpt xs i = (if i < length xs then Some (xs ! i) else None)"

text \<open>\<^verbatim>\<open>currentPoints[trianglesData[i]]\<close>, \<^verbatim>\<open>undefined\<close> when either read is out of range.\<close>

definition cornerPoint :: "point list \<Rightarrow> nat list \<Rightarrow> nat \<Rightarrow> point option" where
  "cornerPoint currentPoints trianglesData i =
     (case nthOpt trianglesData i of None \<Rightarrow> None | Some j \<Rightarrow> nthOpt currentPoints j)"

text \<open>\<^verbatim>\<open>Math.hypot(a[0] - b[0], a[1] - b[1])\<close>.\<close>

definition edgeLength :: "machine \<Rightarrow> point \<Rightarrow> point \<Rightarrow> real" where
  "edgeLength fp a b = m_hypot fp (fsub fp (fst a) (fst b)) (fsub fp (snd a) (snd b))"

definition heronArea :: "machine \<Rightarrow> real \<Rightarrow> real \<Rightarrow> real \<Rightarrow> real" where
  "heronArea fp l1 l2 l3 =
     (let s = fdiv fp (fadd fp (fadd fp l1 l2) l3) 2
      in m_sqrt fp (max 0 (fmul fp (fmul fp (fmul fp s (fsub fp s l1)) (fsub fp s l2))
                                   (fsub fp s l3))))"

definition needsSplit :: "machine \<Rightarrow> int \<Rightarrow> int \<Rightarrow> real \<Rightarrow> real \<Rightarrow> real \<Rightarrow> bool" where
  "needsSplit fp width height l1 l2 l3 =
     (let maxL = max (max l1 l2) l3;
          minL = min (min l1 l2) l3;
          area = heronArea fp l1 l2 l3;
          isSharp = fdiv fp maxL (max 1 minL) > 4;
          isTooLarge = area > fmul fp (fmul fp (real_of_int width) (real_of_int height))
                                      (m_round fp 0.04)
      in (isSharp \<and> area > 50) \<or> isTooLarge)"

text \<open>\<^verbatim>\<open>[(a[0] + b[0]) / 2, (a[1] + b[1]) / 2]\<close>.\<close>

definition midOf :: "machine \<Rightarrow> point \<Rightarrow> point \<Rightarrow> point" where
  "midOf fp a b = (fdiv fp (fadd fp (fst a) (fst b)) 2, fdiv fp (fadd fp (snd a) (snd b)) 2)"

definition longestEdgeMid ::
  "machine \<Rightarrow> real \<Rightarrow> real \<Rightarrow> real \<Rightarrow> point \<Rightarrow> point \<Rightarrow> point \<Rightarrow> point" where
  "longestEdgeMid fp l1 l2 l3 p1 p2 p3 =
     (let maxL = max (max l1 l2) l3
      in if maxL = l1 then midOf fp p1 p2
         else if maxL = l2 then midOf fp p2 p3
         else midOf fp p3 p1)"

definition pushMid :: "point \<Rightarrow> sampler \<times> nat \<Rightarrow> sampler \<times> nat" where
  "pushMid mid sa =
     (case sa of (st, added) \<Rightarrow>
        let key = pointKey (fst mid) (snd mid)
        in if key \<notin> pointsMap st
           then (st\<lparr> pointsMap := insert key (pointsMap st), points := points st @ [mid] \<rparr>,
                 added + 1)
           else (st, added))"

definition refineTriangle ::
  "machine \<Rightarrow> int \<Rightarrow> int \<Rightarrow> nat list \<Rightarrow> nat \<Rightarrow> sampler \<times> nat \<Rightarrow> sampler \<times> nat" where
  "refineTriangle fp width height trianglesData i sa =
     (case (cornerPoint (points (fst sa)) trianglesData i,
            cornerPoint (points (fst sa)) trianglesData (i + 1),
            cornerPoint (points (fst sa)) trianglesData (i + 2)) of
        (Some p1, Some p2, Some p3) \<Rightarrow>
          let l1 = edgeLength fp p1 p2;
              l2 = edgeLength fp p2 p3;
              l3 = edgeLength fp p3 p1
          in if needsSplit fp width height l1 l2 l3
             then pushMid (longestEdgeMid fp l1 l2 l3 p1 p2 p3) sa
             else sa
      | _ \<Rightarrow> sa)"

function refineTriangles ::
  "machine \<Rightarrow> int \<Rightarrow> int \<Rightarrow> nat list \<Rightarrow> nat \<Rightarrow> sampler \<times> nat \<Rightarrow> sampler \<times> nat" where
  "refineTriangles fp width height trianglesData i sa =
     (if i < length trianglesData
      then refineTriangles fp width height trianglesData (i + 3)
             (refineTriangle fp width height trianglesData i sa)
      else sa)"
  by pat_completeness auto
termination
  by (relation "measure (\<lambda>(fp, width, height, trianglesData, i, sa). length trianglesData - i)")
     auto

definition refinePass ::
  "machine \<Rightarrow> (point list \<Rightarrow> nat list) \<Rightarrow> int \<Rightarrow> int \<Rightarrow> sampler \<Rightarrow> sampler \<times> nat" where
  "refinePass fp delaunay width height st =
     refineTriangles fp width height (delaunay (points st)) 0 (st, 0)"

definition refinementPasses :: nat where
  "refinementPasses = 2"

function refineLoop ::
  "machine \<Rightarrow> (point list \<Rightarrow> nat list) \<Rightarrow> int \<Rightarrow> int \<Rightarrow> nat \<Rightarrow> sampler \<Rightarrow> sampler" where
  "refineLoop fp delaunay width height pass st =
     (if pass < refinementPasses
      then (case refinePass fp delaunay width height st of (st', added) \<Rightarrow>
              if added = 0 then st'
              else refineLoop fp delaunay width height (pass + 1) st')
      else st)"
  by pat_completeness auto
termination
  by (relation "measure (\<lambda>(fp, delaunay, width, height, pass, st). refinementPasses - pass)")
     auto

subsection \<open>The point pipeline of \<^verbatim>\<open>processImage\<close>\<close>

definition samplePoints ::
  "(nat \<Rightarrow> real) \<Rightarrow> real \<Rightarrow> int \<Rightarrow> int \<Rightarrow> u8 list \<Rightarrow> sampler" where
  "samplePoints rand quality width height blurredData =
     (let q = quality / 100;
          st = addCorners width height emptySampler
      in if quality > 0
         then let st = borderLattice q width height st;
                  sobelData = sobelPass blurredData width height
              in gridRows rand q width height sobelData 0 st
         else st)"

text \<open>
  What \<^verbatim>\<open>processImage\<close> computes from line 126 on, once the canvas has delivered the
  pixel buffers: the point list handed to \<^verbatim>\<open>runTriangulation\<close>.
\<close>

definition pointPipeline ::
  "machine \<Rightarrow> (nat \<Rightarrow> real) \<Rightarrow> (point list \<Rightarrow> nat list) \<Rightarrow> real \<Rightarrow> int \<Rightarrow> int \<Rightarrow> u8 list
     \<Rightarrow> point list" where
  "pointPipeline fp rand delaunay quality width height blurredData =
     (let st = samplePoints rand quality width height blurredData
      in if quality > 0
         then points (refineLoop fp delaunay width height 0 st)
         else points st)"

text \<open>
  Before any point is added \<^verbatim>\<open>processImage\<close> acquires the drawing context and returns
  when there is none (\<open>ctx\<close> tells whether \<^verbatim>\<open>getContext\<close> delivered one), then reads the
  pixels with \<^verbatim>\<open>getImageData(0, 0, width, height)\<close>, which raises \<^verbatim>\<open>IndexSizeError\<close> when
  the width or the height is 0. In both cases no point list is produced. The caller
  passes a loaded image and \<^verbatim>\<open>Math.floor\<close> of its scaled dimensions, so a dimension can
  be 0 (a 1 by 2000 image is scaled to 0 by 800) but not negative, and \<^verbatim>\<open>drawImage\<close>
  does not raise.
\<close>

datatype error = ResourceUnavailable | IndexSizeError

definition processImage ::
  "machine \<Rightarrow> (nat \<Rightarrow> real) \<Rightarrow> (point list \<Rightarrow> nat list) \<Rightarrow> bool \<Rightarrow> real \<Rightarrow> int \<Rightarrow> int
     \<Rightarrow> u8 list \<Rightarrow> error + point list" where
  "processImage fp rand delaunay ctx quality width height blurredData =
     (if \<not> ctx then Inl ResourceUnavailable
      else if width = 0 \<or> height = 0 then Inl IndexSizeError
      else Inr (pointPipeline fp rand delaunay quality width height blurredData))"

subsection \<open>Animation sequencer: \<^verbatim>\<open>animate\<close>\<close>

text \<open>
  One call of \<^verbatim>\<open>animate\<close> is a function of the timestamp and of \<^verbatim>\<open>startTime\<close>
  (\<^verbatim>\<open>null\<close> is \<^const>\<open>None\<close>); it returns the new \<^verbatim>\<open>startTime\<close> and a record of what the
  call did: the status it set (one label per phase), the locals \<^verbatim>\<open>elapsed\<close>,
  \<^verbatim>\<open>phaseElapsed\<close> and \<^verbatim>\<open>progress\<close> of the branch taken, the canvas calls in order, and
  whether it called \<^verbatim>\<open>requestAnimationFrame\<close>.
\<close>

datatype phase =
  SourceImage | EdgeVisualization | PointCloud | Wireframe | ColorFill | EdgeFadeOut | Complete

type_synonym rgb = "u8 option \<times> u8 option \<times> u8 option"

datatype style = Black | White | Mint | Rgba nat nat nat real | Rgb rgb

datatype cmd =
    ClearRect int int int int
  | DrawImage int int int int
  | FillStyle style
  | StrokeStyle style
  | FillRect int int int int
  | GlobalAlpha real
  | DrawSobel "num list"
  | BeginPath
  | MoveTo real real
  | LineTo real real
  | ClosePath
  | Arc real real real
  | Fill
  | LineWidth real
  | Stroke

record coloredTriangle =
  tri_points :: "point \<times> point \<times> point"
  tri_color :: rgb
  tri_center :: "int \<times> int"

text \<open>The variables \<^verbatim>\<open>startAnimation\<close> captures for \<^verbatim>\<open>animate\<close>.\<close>

record animation =
  an_triangles :: "coloredTriangle list"
  an_sobel :: "num list option"
  an_points :: "point list"
  an_w :: int
  an_h :: int
  an_img :: bool
  an_tempCtx :: bool
  animationSpeed :: real

record frame =
  fr_status :: phase
  fr_elapsed :: real
  fr_phaseElapsed :: "real option"
  fr_progress :: "real option"
  fr_draws :: "cmd list"
  fr_requested :: bool

definition PHASE_IMAGE :: "animation \<Rightarrow> real" where
  "PHASE_IMAGE a = 1500 / animationSpeed a"

definition PHASE_SOBEL :: "animation \<Rightarrow> real" where
  "PHASE_SOBEL a = 2000 / animationSpeed a"

definition PHASE_POINTS :: "animation \<Rightarrow> real" where
  "PHASE_POINTS a = 2000 / animationSpeed a"

definition PHASE_LINES :: "animation \<Rightarrow> real" where
  "PHASE_LINES a = 2500 / animationSpeed a"

definition PHASE_COLORS :: "animation \<Rightarrow> real" where
  "PHASE_COLORS a = 2500 / animationSpeed a"

definition PHASE_FADE_EDGES :: "animation \<Rightarrow> real" where
  "PHASE_FADE_EDGES a = 2000 / animationSpeed a"

definition totalDuration :: "animation \<Rightarrow> real" where
  "totalDuration a =
     PHASE_IMAGE a + PHASE_SOBEL a + PHASE_POINTS a + PHASE_LINES a + PHASE_COLORS a
       + PHASE_FADE_EDGES a"

definition drawTrianglePath :: "coloredTriangle \<Rightarrow> cmd list" where
  "drawTrianglePath t =
     (case tri_points t of (p0, p1, p2) \<Rightarrow>
        [BeginPath, MoveTo (fst p0) (snd p0), LineTo (fst p1) (snd p1),
         LineTo (fst p2) (snd p2), ClosePath])"

text \<open>\<^verbatim>\<open>Math.min(255, sobel[i])\<close> for every cell, painted through the temporary canvas.\<close>

definition sobelImage :: "num list \<Rightarrow> num list" where
  "sobelImage sobel = map (map_option (min 255)) sobel"

definition drawSobelPhase :: "animation \<Rightarrow> real \<Rightarrow> cmd list" where
  "drawSobelPhase a progress =
     (case an_sobel a of
        None \<Rightarrow> []
      | Some sobel \<Rightarrow>
          if an_tempCtx a
          then [FillStyle Black, FillRect 0 0 (an_w a) (an_h a), GlobalAlpha progress,
                DrawSobel (sobelImage sobel), GlobalAlpha 1]
          else [])"

definition drawPointsPhase :: "animation \<Rightarrow> real \<Rightarrow> cmd list" where
  "drawPointsPhase a progress =
     (let visiblePointsCount = \<lfloor>progress * real (length (an_points a))\<rfloor>
      in [FillStyle Black, FillRect 0 0 (an_w a) (an_h a)]
         @ (case an_sobel a of
              None \<Rightarrow> []
            | Some sobel \<Rightarrow>
                [GlobalAlpha 0.3]
                @ (if an_tempCtx a then [DrawSobel (sobelImage sobel)] else [])
                @ [GlobalAlpha 1])
         @ [FillStyle Mint]
         @ concat (map (\<lambda>p. [BeginPath, Arc (fst p) (snd p) 1, Fill])
                       (take (nat visiblePointsCount) (an_points a))))"

definition drawLinesPhase :: "animation \<Rightarrow> real \<Rightarrow> cmd list" where
  "drawLinesPhase a progress =
     (let easedProgress = 1 - (1 - progress) ^ 3;
          visibleCount = \<lfloor>easedProgress * real (length (an_triangles a))\<rfloor>
      in [FillStyle Black, FillRect 0 0 (an_w a) (an_h a),
          FillStyle (Rgba 0 255 204 (0.8 * (1 - progress)))]
         @ concat (map (\<lambda>p. [BeginPath, Arc (fst p) (snd p) 0.8, Fill]) (an_points a))
         @ [StrokeStyle (Rgba 0 255 204 0.3), LineWidth 0.5]
         @ concat (map (\<lambda>t. drawTrianglePath t @ [Stroke])
                       (take (nat visibleCount) (an_triangles a))))"

definition drawColorsPhase :: "animation \<Rightarrow> real \<Rightarrow> cmd list" where
  "drawColorsPhase a progress =
     (let easedProgress = 1 - (1 - progress) ^ 3;
          coloredCount = \<lfloor>easedProgress * real (length (an_triangles a))\<rfloor>
      in [FillStyle Black, FillRect 0 0 (an_w a) (an_h a)]
         @ concat (map (\<lambda>(i, t).
               drawTrianglePath t
               @ (if int i < coloredCount
                  then [FillStyle (Rgb (tri_color t)), Fill,
                        StrokeStyle (Rgba 255 255 255 (0.1 * (1 - progress)))]
                  else [StrokeStyle (Rgba 0 255 204 0.3)])
               @ [LineWidth 0.5, Stroke])
             (enumerate 0 (an_triangles a))))"

definition drawFadePhase :: "animation \<Rightarrow> real \<Rightarrow> cmd list" where
  "drawFadePhase a progress =
     [FillStyle White, FillRect 0 0 (an_w a) (an_h a)]
     @ concat (map (\<lambda>t.
           drawTrianglePath t
           @ [FillStyle (Rgb (tri_color t)), Fill,
              StrokeStyle (Rgb (tri_color t)), LineWidth 0.5, Stroke]
           @ (if progress < 1
              then [StrokeStyle (Rgba 255 255 255 (0.1 * (1 - progress))), Stroke]
              else []))
         (an_triangles a))"

definition drawComplete :: "animation \<Rightarrow> cmd list" where
  "drawComplete a =
     [FillStyle White, FillRect 0 0 (an_w a) (an_h a)]
     @ concat (map (\<lambda>t.
           drawTrianglePath t
           @ [FillStyle (Rgb (tri_color t)), Fill,
              StrokeStyle (Rgb (tri_color t)), LineWidth 0.5, Stroke])
         (an_triangles a))"

text \<open>\<^verbatim>\<open>if (!startTime) startTime = timestamp\<close>: \<^verbatim>\<open>null\<close> and \<open>0\<close> are both falsy.\<close>

definition latch :: "real option \<Rightarrow> real \<Rightarrow> real" where
  "latch startTime timestamp =
     (case startTime of
        None \<Rightarrow> timestamp
      | Some s \<Rightarrow> if s = 0 then timestamp else s)"

text \<open>
  The durations are \<open>c / animationSpeed\<close>. For \<open>animationSpeed = 0\<close> JavaScript gives
  \<^verbatim>\<open>Infinity\<close>, so every elapsed time is below \<^verbatim>\<open>PHASE_IMAGE\<close> and the first branch is
  taken; that case is the first test below, the others compute with real durations.
\<close>

definition animate :: "animation \<Rightarrow> real \<Rightarrow> real option \<Rightarrow> real option \<times> frame" where
  "animate a timestamp startTime =
     (let start = latch startTime timestamp;
          elapsed = timestamp - start;
          clear = ClearRect 0 0 (an_w a) (an_h a)
      in (Some start,
          if animationSpeed a = 0 \<or> elapsed < PHASE_IMAGE a
          then \<lparr> fr_status = SourceImage, fr_elapsed = elapsed,
                 fr_phaseElapsed = None, fr_progress = None,
                 fr_draws = clear # (if an_img a then [DrawImage 0 0 (an_w a) (an_h a)] else []),
                 fr_requested = True \<rparr>
          else if elapsed < PHASE_IMAGE a + PHASE_SOBEL a
          then let phaseElapsed = elapsed - PHASE_IMAGE a;
                   progress = min 1 (phaseElapsed / PHASE_SOBEL a)
               in \<lparr> fr_status = EdgeVisualization, fr_elapsed = elapsed,
                      fr_phaseElapsed = Some phaseElapsed, fr_progress = Some progress,
                      fr_draws = clear # drawSobelPhase a progress,
                      fr_requested = True \<rparr>
          else if elapsed < PHASE_IMAGE a + PHASE_SOBEL a + PHASE_POINTS a
          then let phaseElapsed = elapsed - (PHASE_IMAGE a + PHASE_SOBEL a);
                   progress = min 1 (phaseElapsed / PHASE_POINTS a)
               in \<lparr> fr_status = PointCloud, fr_elapsed = elapsed,
                      fr_phaseElapsed = Some phaseElapsed, fr_progress = Some progress,
                      fr_draws = clear # drawPointsPhase a progress,
                      fr_requested = True \<rparr>
          else if elapsed < PHASE_IMAGE a + PHASE_SOBEL a + PHASE_POINTS a + PHASE_LINES a
          then let phaseElapsed = elapsed - (PHASE_IMAGE a + PHASE_SOBEL a + PHASE_POINTS a);
                   progress = min 1 (phaseElapsed / PHASE_LINES a)
               in \<lparr> fr_status = Wireframe, fr_elapsed = elapsed,
                      fr_phaseElapsed = Some phaseElapsed, fr_progress = Some progress,
                      fr_draws = clear # drawLinesPhase a progress,
                      fr_requested = True \<rparr>
          else if elapsed < PHASE_IMAGE a + PHASE_SOBEL a + PHASE_POINTS a + PHASE_LINES a
                              + PHASE_COLORS a
          then let phaseElapsed = elapsed - (PHASE_IMAGE a + PHASE_SOBEL a + PHASE_POINTS a
                                              + PHASE_LINES a);
                   progress = min 1 (phaseElapsed / PHASE_COLORS a)
               in \<lparr> fr_status = ColorFill, fr_elapsed = elapsed,
                      fr_phaseElapsed = Some phaseElapsed, fr_progress = Some progress,
                      fr_draws = clear # drawColorsPhase a progress,
                      fr_requested = True \<rparr>
          else if elapsed < totalDuration a
          then let phaseElapsed = elapsed - (PHASE_IMAGE a + PHASE_SOBEL a + PHASE_POINTS a
                                              + PHASE_LINES a + PHASE_COLORS a);
                   progress = min 1 (phaseElapsed / PHASE_FADE_EDGES a)
               in \<lparr> fr_status = EdgeFadeOut, fr_elapsed = elapsed,
                      fr_phaseElapsed = Some phaseElapsed, fr_progress = Some progress,
                      fr_draws = clear # drawFadePhase a progress,
                      fr_requested = True \<rparr>
          else \<lparr> fr_status = Complete, fr_elapsed = elapsed,
                 fr_phaseElapsed = None, fr_progress = None,
                 fr_draws = clear # drawComplete a,
                 fr_requested = False \<rparr>))"

text \<open>
  The render loop: the browser calls \<^verbatim>\<open>animate\<close> with the next timestamp only when the
  previous call requested a frame.
\<close>

fun runTicks :: "animation \<Rightarrow> real option \<Rightarrow> real list \<Rightarrow> frame list" where
  "runTicks a startTime [] = []"
| "runTicks a startTime (t # ts) =
     (case animate a t startTime of (startTime', fr) \<Rightarrow>
        fr # (if fr_requested fr then runTicks a startTime' ts else []))"

subsection \<open>Color sampler: the statement's vocabulary\<close>








definition demoData :: "u8 list" where
  "demoData = map word_of_nat [0..<36]"

subsection \<open>Sampler: the statement's vocabulary\<close>

text \<open>
  The key of a stored point, and the invariant that ties the key set to the point array:
  the key set is exactly the set of keys of the stored points, and no key occurs twice.
\<close>

definition keyOf :: "point \<Rightarrow> key" where
  "keyOf p = pointKey (fst p) (snd p)"

definition samplerInv :: "sampler \<Rightarrow> bool" where
  "samplerInv st \<longleftrightarrow>
     pointsMap st = keyOf ` set (points st) \<and> distinct (map keyOf (points st))"

text \<open>A step of the pipeline extends the point array at its end and keeps the invariant.\<close>

definition extends :: "sampler \<Rightarrow> sampler \<Rightarrow> bool" where
  "extends st st' \<longleftrightarrow>
     prefix (points st) (points st') \<and> (samplerInv st \<longrightarrow> samplerInv st')"

definition euclid :: "point \<Rightarrow> point \<Rightarrow> real" where
  "euclid a b = sqrt ((fst a - fst b)\<^sup>2 + (snd a - snd b)\<^sup>2)"

text \<open>Fixed inputs for concrete runs: a random source that always returns 1/2, and a
  triangulation with no triangles.\<close>

definition constRandom :: "nat \<Rightarrow> real" where
  "constRandom k = 1 / 2"

definition noTriangles :: "point list \<Rightarrow> nat list" where
  "noTriangles pts = []"

subsection \<open>Border lattice: the statement's vocabulary\<close>

text \<open>
  The multiples \<open>0, step, 2 step, ...\<close> up to a bound, the lattice they form on the four
  edges of a \<open>width\<close> by \<open>height\<close> image, and the four corners.
\<close>

definition multiples :: "int \<Rightarrow> int \<Rightarrow> int \<Rightarrow> int set" where
  "multiples step start bound = {start + k * step | k. 0 \<le> k \<and> start + k * step \<le> bound}"

definition latticeSet :: "int \<Rightarrow> int \<Rightarrow> int \<Rightarrow> point set" where
  "latticeSet step width height =
     (\<lambda>i. (real_of_int i, 0)) ` multiples step 0 width
     \<union> (\<lambda>i. (real_of_int i, real_of_int height)) ` multiples step 0 width
     \<union> (\<lambda>i. (0, real_of_int i)) ` multiples step 0 height
     \<union> (\<lambda>i. (real_of_int width, real_of_int i)) ` multiples step 0 height"

definition cornerSet :: "int \<Rightarrow> int \<Rightarrow> point set" where
  "cornerSet width height =
     {(0, 0), (real_of_int width, 0), (0, real_of_int height),
      (real_of_int width, real_of_int height)}"

definition integral :: "point \<Rightarrow> bool" where
  "integral p \<longleftrightarrow> (\<exists>i j. p = (real_of_int i, real_of_int j))"

definition integralInv :: "sampler \<Rightarrow> bool" where
  "integralInv st \<longleftrightarrow> samplerInv st \<and> (\<forall>p \<in> set (points st). integral p)"

subsection \<open>Mesh refinement: the statement's vocabulary\<close>

text \<open>
  The split rule in the words of the specification, over the numbers the machine
  computes (each operation and the literal 0.04 rounded by \<open>m_round\<close>): the edge lengths,
  Heron's area with the radicand clamped at 0, the rule itself (sharp: longest edge over
  \<open>max 1\<close> shortest edge above 4 and area above 50; oversized: area above 0.04 times
  width times height), the edge to bisect (the first of \<open>p1 p2\<close>, \<open>p2 p3\<close>, \<open>p3 p1\<close> that
  no other edge exceeds) and its midpoint.
\<close>

definition spec_length :: "machine \<Rightarrow> point \<Rightarrow> point \<Rightarrow> real" where
  "spec_length fp a b = m_hypot fp (m_round fp (fst a - fst b)) (m_round fp (snd a - snd b))"

definition spec_area :: "machine \<Rightarrow> real \<Rightarrow> real \<Rightarrow> real \<Rightarrow> real" where
  "spec_area fp l1 l2 l3 =
     (let s = m_round fp (m_round fp (m_round fp (l1 + l2) + l3) / 2);
          radicand = m_round fp (m_round fp (m_round fp (s * m_round fp (s - l1))
                                              * m_round fp (s - l2))
                                 * m_round fp (s - l3))
      in m_sqrt fp (max 0 radicand))"

definition spec_needsSplit :: "machine \<Rightarrow> int \<Rightarrow> int \<Rightarrow> real \<Rightarrow> real \<Rightarrow> real \<Rightarrow> bool" where
  "spec_needsSplit fp width height l1 l2 l3 \<longleftrightarrow>
     (let longestEdge = Max {l1, l2, l3};
          shortestEdge = Min {l1, l2, l3};
          area = spec_area fp l1 l2 l3
      in (m_round fp (longestEdge / max 1 shortestEdge) > 4 \<and> area > 50)
         \<or> area > m_round fp (m_round fp 0.04
                                 * m_round fp (real_of_int width * real_of_int height)))"

definition spec_longestEdge ::
  "real \<Rightarrow> real \<Rightarrow> real \<Rightarrow> point \<Rightarrow> point \<Rightarrow> point \<Rightarrow> point \<times> point" where
  "spec_longestEdge l1 l2 l3 p1 p2 p3 =
     (if l2 \<le> l1 \<and> l3 \<le> l1 then (p1, p2)
      else if l1 \<le> l2 \<and> l3 \<le> l2 then (p2, p3)
      else (p3, p1))"

definition spec_midpoint :: "machine \<Rightarrow> point \<Rightarrow> point \<Rightarrow> point" where
  "spec_midpoint fp a b =
     (m_round fp (m_round fp (fst a + fst b) / 2), m_round fp (m_round fp (snd a + snd b) / 2))"

text \<open>
  One triangle of the flat index array, starting at index \<open>i\<close>: when its three corners
  exist and the rule holds, the midpoint goes through \<^const>\<open>addPoint\<close> and is counted if
  its key was new; otherwise nothing changes. A pass triangulates the current points
  and treats the triangles at indices 0, 3, 6, ... in order, counting from 0. The
  refinement is one pass, and a second one exactly when the first added a point.
\<close>

definition spec_refineTriangle ::
  "machine \<Rightarrow> int \<Rightarrow> int \<Rightarrow> nat list \<Rightarrow> nat \<Rightarrow> sampler \<times> nat \<Rightarrow> sampler \<times> nat" where
  "spec_refineTriangle fp width height tris i sa =
     (let st = fst sa; added = snd sa; pts = points st
      in if i + 2 < length tris \<and> tris ! i < length pts \<and> tris ! (i + 1) < length pts
            \<and> tris ! (i + 2) < length pts
         then let p1 = pts ! (tris ! i); p2 = pts ! (tris ! (i + 1)); p3 = pts ! (tris ! (i + 2));
                  l1 = spec_length fp p1 p2; l2 = spec_length fp p2 p3;
                  l3 = spec_length fp p3 p1
              in if spec_needsSplit fp width height l1 l2 l3
                 then let mid = spec_midpoint fp (fst (spec_longestEdge l1 l2 l3 p1 p2 p3))
                                                 (snd (spec_longestEdge l1 l2 l3 p1 p2 p3))
                      in (addPoint (fst mid) (snd mid) st,
                          if keyOf mid \<in> pointsMap st then added else added + 1)
                 else (st, added)
         else (st, added))"

definition spec_triangleStarts :: "nat \<Rightarrow> nat list" where
  "spec_triangleStarts n = map (\<lambda>k. 3 * k) [0..<(n + 2) div 3]"

definition spec_pass ::
  "machine \<Rightarrow> (point list \<Rightarrow> nat list) \<Rightarrow> int \<Rightarrow> int \<Rightarrow> sampler \<Rightarrow> sampler \<times> nat" where
  "spec_pass fp delaunay width height st =
     fold (spec_refineTriangle fp width height (delaunay (points st)))
          (spec_triangleStarts (length (delaunay (points st)))) (st, 0)"

definition spec_refinement ::
  "machine \<Rightarrow> (point list \<Rightarrow> nat list) \<Rightarrow> int \<Rightarrow> int \<Rightarrow> sampler \<Rightarrow> sampler" where
  "spec_refinement fp delaunay width height st =
     (if snd (spec_pass fp delaunay width height st) = 0
      then fst (spec_pass fp delaunay width height st)
      else fst (spec_pass fp delaunay width height
                  (fst (spec_pass fp delaunay width height st))))"

text \<open>
  For concrete runs: arithmetic without rounding, a 3-4-5 triangle with legs 300 and
  400, and a triangulation that returns that one triangle.
\<close>

definition exactMachine :: machine where
  "exactMachine = \<lparr> m_round = (\<lambda>x. x), m_sqrt = sqrt, m_hypot = (\<lambda>a b. sqrt (a * a + b * b)) \<rparr>"

definition demoMesh :: sampler where
  "demoMesh = \<lparr> pointsMap = {pointKey 0 0, pointKey 300 0, pointKey 0 400},
                points = [(0, 0), (300, 0), (0, 400)], randomCalls = 0 \<rparr>"

definition demoTriangulation :: "point list \<Rightarrow> nat list" where
  "demoTriangulation pts = [0, 1, 2]"

subsection \<open>Edge field: the statement's vocabulary\<close>

text \<open>
  The luma of the pixel in column \<open>x\<close> and row \<open>y\<close>, and the two Sobel sums over its
  eight neighbours, as real numbers.
\<close>

definition luma :: "u8 list \<Rightarrow> int \<Rightarrow> int \<Rightarrow> int \<Rightarrow> real" where
  "luma data width x y =
     (let idx = nat ((y * width + x) * 4)
      in 0.299 * real (unat (data ! idx)) + 0.587 * real (unat (data ! (idx + 1)))
         + 0.114 * real (unat (data ! (idx + 2))))"

definition spec_gx :: "u8 list \<Rightarrow> int \<Rightarrow> int \<Rightarrow> int \<Rightarrow> real" where
  "spec_gx data width x y =
     - luma data width (x - 1) (y - 1) + luma data width (x + 1) (y - 1)
     - 2 * luma data width (x - 1) y + 2 * luma data width (x + 1) y
     - luma data width (x - 1) (y + 1) + luma data width (x + 1) (y + 1)"

definition spec_gy :: "u8 list \<Rightarrow> int \<Rightarrow> int \<Rightarrow> int \<Rightarrow> real" where
  "spec_gy data width x y =
     - luma data width (x - 1) (y - 1) - 2 * luma data width x (y - 1)
     - luma data width (x + 1) (y - 1)
     + luma data width (x - 1) (y + 1) + 2 * luma data width x (y + 1)
     + luma data width (x + 1) (y + 1)"

subsection \<open>Animation sequencer: the statement's vocabulary\<close>

text \<open>
  For each phase, the cumulative duration of the phases before it and its own duration
  (the terminal phase has none), and an animation of one triangle at speed 1 for
  concrete runs.
\<close>

fun phaseStart :: "animation \<Rightarrow> phase \<Rightarrow> real" where
  "phaseStart a SourceImage = 0"
| "phaseStart a EdgeVisualization = PHASE_IMAGE a"
| "phaseStart a PointCloud = PHASE_IMAGE a + PHASE_SOBEL a"
| "phaseStart a Wireframe = PHASE_IMAGE a + PHASE_SOBEL a + PHASE_POINTS a"
| "phaseStart a ColorFill = PHASE_IMAGE a + PHASE_SOBEL a + PHASE_POINTS a + PHASE_LINES a"
| "phaseStart a EdgeFadeOut =
     PHASE_IMAGE a + PHASE_SOBEL a + PHASE_POINTS a + PHASE_LINES a + PHASE_COLORS a"
| "phaseStart a Complete = totalDuration a"

fun phaseDuration :: "animation \<Rightarrow> phase \<Rightarrow> real" where
  "phaseDuration a SourceImage = PHASE_IMAGE a"
| "phaseDuration a EdgeVisualization = PHASE_SOBEL a"
| "phaseDuration a PointCloud = PHASE_POINTS a"
| "phaseDuration a Wireframe = PHASE_LINES a"
| "phaseDuration a ColorFill = PHASE_COLORS a"
| "phaseDuration a EdgeFadeOut = PHASE_FADE_EDGES a"
| "phaseDuration a Complete = 0"

definition demoAnimation :: animation where
  "demoAnimation =
     \<lparr> an_triangles = [\<lparr> tri_points = ((0, 0), (3, 0), (0, 3)),
                          tri_color = (Some 12, Some 13, Some 14),
                          tri_center = (1, 1) \<rparr>],
       an_sobel = None, an_points = [(0, 0), (3, 0), (0, 3)],
       an_w = 3, an_h = 3, an_img = True, an_tempCtx = True, animationSpeed = 1 \<rparr>"

text \<open>
  With timestamps that never decrease, a latched start time is never later than a
  timestamp still to come, so \<^verbatim>\<open>elapsed\<close> is never negative.
\<close>

definition notAfter :: "real option \<Rightarrow> real list \<Rightarrow> bool" where
  "notAfter startTime ts \<longleftrightarrow>
     (case startTime of None \<Rightarrow> True | Some s \<Rightarrow> list_all (\<lambda>t. s \<le> t) ts)"

section \<open>Verified properties\<close>

subsection \<open>Color sampler\<close>

lemma safeX_bounds: "1 \<le> width \<Longrightarrow> 0 \<le> safeX width s \<and> safeX width s \<le> width - 1"
  by (simp add: safeX_def)

lemma safeY_bounds: "1 \<le> height \<Longrightarrow> 0 \<le> safeY height s \<and> safeY height s \<le> height - 1"
  by (simp add: safeY_def)

lemma sampleIdx_bounds:
  assumes "1 \<le> width" "1 \<le> height"
  shows "0 \<le> sampleIdx width height s \<and> sampleIdx width height s + 2 < 4 * width * height"
proof -
  have x: "0 \<le> safeX width s" "safeX width s \<le> width - 1"
    using safeX_bounds [OF assms(1)] by auto
  have y: "0 \<le> safeY height s" "safeY height s \<le> height - 1"
    using safeY_bounds [OF assms(2)] by auto
  have "safeY height s * width \<le> (height - 1) * width"
    using y assms by (intro mult_right_mono) auto
  then have "safeY height s * width + safeX width s \<le> height * width - 1"
    using x by (simp add: algebra_simps)
  moreover have "0 \<le> safeY height s * width" using y assms by simp
  ultimately show ?thesis using x by (simp add: sampleIdx_def algebra_simps)
qed

lemma readByte_in_range:
  assumes "1 \<le> width" "1 \<le> height" "int (length data) = 4 * width * height"
    and "c \<in> {0, 1, 2}"
  shows "readByte data (sampleIdx width height s + c)
           = Some (data ! nat (sampleIdx width height s + c))"
  using sampleIdx_bounds [OF assms(1,2), of s] assms(3,4)
  by (auto simp: readByte_def)







lemma length_samples: "length (samples p1 p2 p3) = 5"
  by (simp add: samples_def Let_def)








lemma demo_col: "getMedianColor (0, 0) (3, 0) (0, 3) demoData 3 3
     = \<lparr> col_r = Some 12, col_g = Some 13, col_b = Some 14, col_cx = 1, col_cy = 1 \<rparr>"
  by code_simp


text \<open>
  C6. With \<open>width, height \<ge> 1\<close>, every sample location is clamped to a column in
  \<open>[0, width - 1]\<close> and a row in \<open>[0, height - 1]\<close>, so its buffer index \<open>idx\<close>
  satisfies \<open>0 \<le> idx\<close> and \<open>idx + 2 < 4 * width * height\<close>, and none of the three reads
  at \<open>idx\<close>, \<open>idx + 1\<close>, \<open>idx + 2\<close> is out of range.
\<close>

theorem sample_index_in_bounds:
  assumes "1 \<le> width" "1 \<le> height" "int (length data) = 4 * width * height"
    and "s \<in> set (samples p1 p2 p3)"
  shows "0 \<le> safeX width s \<and> safeX width s \<le> width - 1
       \<and> 0 \<le> safeY height s \<and> safeY height s \<le> height - 1
       \<and> 0 \<le> sampleIdx width height s
       \<and> sampleIdx width height s + 2 < 4 * width * height
       \<and> readByte data (sampleIdx width height s) \<noteq> None
       \<and> readByte data (sampleIdx width height s + 1) \<noteq> None
       \<and> readByte data (sampleIdx width height s + 2) \<noteq> None"
  using safeX_bounds [OF assms(1), of s] safeY_bounds [OF assms(2), of s]
    sampleIdx_bounds [OF assms(1,2), of s]
    readByte_in_range [OF assms(1,2,3), of 0 s]
    readByte_in_range [OF assms(1,2,3), of 1 s]
    readByte_in_range [OF assms(1,2,3), of 2 s]
  by simp


theorem sample_index_in_bounds_witness:
  "(1::int) \<le> 3 \<and> int (length demoData) = 4 * 3 * 3
   \<and> (3 / 4, 3 / 4) \<in> set (samples (0, 0) (3, 0) (0, 3))
   \<and> 0 \<le> sampleIdx 3 3 (3 / 4, 3 / 4) \<and> sampleIdx 3 3 (3 / 4, 3 / 4) + 2 < 4 * 3 * 3
   \<and> readByte demoData (sampleIdx 3 3 (3 / 4, 3 / 4) + 2) \<noteq> None"
proof -
  have len: "int (length demoData) = 4 * 3 * 3"
    by (simp add: demoData_def)
  have one: "(1::int) \<le> 3" by simp
  have mem: "(3 / 4, 3 / 4) \<in> set (samples (0, 0) (3, 0) (0, 3))"
    by (simp add: samples_def)
  from sample_index_in_bounds [OF one one len mem]
  show ?thesis using len mem by simp
qed

subsection \<open>The deduplication key\<close>

lemma toFixed1_apart:
  assumes "1 / 10 \<le> \<bar>x1 - x2\<bar>"
  shows "toFixed1 x1 \<noteq> toFixed1 x2"
proof
  assume eq: "toFixed1 x1 = toFixed1 x2"
  show False
  proof (cases "10 ^ 21 \<le> \<bar>x1\<bar>")
    case True
    then show False using eq assms
      by (auto simp: toFixed1_def split: if_splits)
  next
    case False
    then have small: "\<not> 10 ^ 21 \<le> \<bar>x2\<bar>" using eq
      by (auto simp: toFixed1_def split: if_splits)
    from eq False small have sgn: "(x1 < 0) = (x2 < 0)"
      and fl: "\<lfloor>10 * \<bar>x1\<bar> + 1 / 2\<rfloor> = \<lfloor>10 * \<bar>x2\<bar> + 1 / 2\<rfloor>"
      by (auto simp: toFixed1_def)
    from sgn have "\<bar>\<bar>x1\<bar> - \<bar>x2\<bar>\<bar> = \<bar>x1 - x2\<bar>" by (auto simp: abs_if)
    with assms have "1 \<le> \<bar>(10 * \<bar>x1\<bar> + 1 / 2) - (10 * \<bar>x2\<bar> + 1 / 2)\<bar>" by linarith
    then have "\<lfloor>10 * \<bar>x1\<bar> + 1 / 2\<rfloor> \<noteq> \<lfloor>10 * \<bar>x2\<bar> + 1 / 2\<rfloor>"
      by linarith
    with fl show False by simp
  qed
qed

lemma pointKey_apart:
  assumes "1 / 10 \<le> \<bar>x1 - x2\<bar> \<or> 1 / 10 \<le> \<bar>y1 - y2\<bar>"
  shows "pointKey x1 y1 \<noteq> pointKey x2 y2"
  using assms toFixed1_apart by (auto simp: pointKey_def)

lemma addPoint_new:
  "pointKey x y \<notin> pointsMap st \<Longrightarrow>
     addPoint x y st = st\<lparr> pointsMap := insert (pointKey x y) (pointsMap st),
                            points := points st @ [(x, y)] \<rparr>"
  by (simp add: addPoint_def)

lemma addPoint_old: "pointKey x y \<in> pointsMap st \<Longrightarrow> addPoint x y st = st"
  by (simp add: addPoint_def)

lemma set_points_addPoint: "set (points st) \<subseteq> set (points (addPoint x y st))"
  by (auto simp: addPoint_def Let_def)

text \<open>
  C3, as the code has it. The key rounds each coordinate to a tenth on its own, so what
  keeps two points apart is a difference of at least 0.1 in \<open>x\<close> or in \<open>y\<close>: two such
  points have different keys, and inserting both into a sampler that holds neither key
  stores both, in order.
\<close>

theorem separated_points_both_stored:
  assumes "1 / 10 \<le> \<bar>x1 - x2\<bar> \<or> 1 / 10 \<le> \<bar>y1 - y2\<bar>"
    and "pointKey x1 y1 \<notin> pointsMap st" "pointKey x2 y2 \<notin> pointsMap st"
  shows "pointKey x1 y1 \<noteq> pointKey x2 y2
       \<and> points (addPoint x2 y2 (addPoint x1 y1 st)) = points st @ [(x1, y1), (x2, y2)]"
proof -
  have ne: "pointKey x1 y1 \<noteq> pointKey x2 y2"
    by (rule pointKey_apart [OF assms(1)])
  have "pointKey x2 y2 \<notin> pointsMap (addPoint x1 y1 st)"
    using ne assms(2,3) by (simp add: addPoint_new)
  then show ?thesis using ne assms(2)
    by (simp add: addPoint_new)
qed

theorem separated_points_both_stored_witness:
  "(1 / 10 \<le> \<bar>(0::real) - 1 / 10\<bar> \<or> 1 / 10 \<le> \<bar>(7::real) - 7\<bar>)
   \<and> pointKey 0 7 \<notin> pointsMap emptySampler \<and> pointKey (1 / 10) 7 \<notin> pointsMap emptySampler
   \<and> points (addPoint (1 / 10) 7 (addPoint 0 7 emptySampler)) = [(0, 7), (1 / 10, 7)]"
proof -
  have h1: "1 / 10 \<le> \<bar>(0::real) - 1 / 10\<bar> \<or> 1 / 10 \<le> \<bar>(7::real) - 7\<bar>" by simp
  have h2: "pointKey 0 7 \<notin> pointsMap emptySampler" by (simp add: emptySampler_def)
  have h3: "pointKey (1 / 10) 7 \<notin> pointsMap emptySampler" by (simp add: emptySampler_def)
  from separated_points_both_stored [OF h1 h2 h3]
  show ?thesis using h1 h2 h3 by (simp add: emptySampler_def)
qed

text \<open>
  The points \<open>(1/16, 1/16)\<close> and \<open>(9/64, 9/64)\<close> are about 0.11 apart, yet both keys
  print as \<^verbatim>\<open>0.1,0.1\<close> and the second insertion is dropped.
\<close>

theorem merged_at_distance_counterexample:
  "1 / 10 \<le> euclid (1 / 16, 1 / 16) (9 / 64, 9 / 64)
   \<and> (1 / 16, 1 / 16) \<noteq> (9 / 64, 9 / 64 :: real)
   \<and> pointKey (1 / 16) (1 / 16) = pointKey (9 / 64) (9 / 64)
   \<and> points (addPoint (9 / 64) (9 / 64) (addPoint (1 / 16) (1 / 16) emptySampler))
       = [(1 / 16, 1 / 16)]"
proof -
  have "(1 / 10)\<^sup>2 \<le> ((1 / 16 - 9 / 64)\<^sup>2 + (1 / 16 - 9 / 64)\<^sup>2 :: real)"
    by (simp add: power2_eq_square)
  then have d: "1 / 10 \<le> euclid (1 / 16, 1 / 16) (9 / 64, 9 / 64)"
    unfolding euclid_def fst_conv snd_conv by (rule real_le_rsqrt)
  have k: "pointKey (1 / 16) (1 / 16) = pointKey (9 / 64) (9 / 64)"
    by (simp add: pointKey_def toFixed1_def)
  have "points (addPoint (9 / 64) (9 / 64) (addPoint (1 / 16) (1 / 16) emptySampler))
       = [(1 / 16, 1 / 16)]"
    by (simp add: addPoint_def emptySampler_def k [symmetric])
  with d k show ?thesis by simp
qed

subsection \<open>Every stage extends the point array and keeps the key invariant\<close>

lemma extends_refl: "extends st st"
  by (simp add: extends_def)

lemma extends_trans: "extends a b \<Longrightarrow> extends b c \<Longrightarrow> extends a c"
  by (auto simp: extends_def)

lemma samplerInv_empty: "samplerInv emptySampler"
  by (simp add: samplerInv_def emptySampler_def)

lemma samplerInv_push:
  assumes "samplerInv st" "keyOf m \<notin> pointsMap st"
  shows "samplerInv (st\<lparr> pointsMap := insert (keyOf m) (pointsMap st),
                            points := points st @ [m] \<rparr>)"
  using assms by (auto simp: samplerInv_def)

lemma extends_push:
  "keyOf m \<notin> pointsMap st \<Longrightarrow>
     extends st (st\<lparr> pointsMap := insert (keyOf m) (pointsMap st),
                       points := points st @ [m] \<rparr>)"
  using samplerInv_push [of st m] by (simp add: extends_def)

lemma extends_addPoint: "extends st (addPoint x y st)"
proof (cases "pointKey x y \<in> pointsMap st")
  case True
  then show ?thesis by (simp add: addPoint_old extends_refl)
next
  case False
  then show ?thesis
    using extends_push [of "(x, y)" st] by (simp add: addPoint_new keyOf_def)
qed

lemma extends_randomCalls: "extends st (st\<lparr> randomCalls := k \<rparr>)"
  by (simp add: extends_def samplerInv_def)

lemma extends_addCorners: "extends st (addCorners width height st)"
  unfolding addCorners_def
  by (rule extends_trans [OF extends_trans [OF extends_trans
        [OF extends_addPoint extends_addPoint] extends_addPoint] extends_addPoint])

declare borderTopBottom.simps [simp del] borderLeftRight.simps [simp del]
  processCell.simps [simp del] gridRow.simps [simp del] gridRows.simps [simp del]
  refineTriangles.simps [simp del] refineLoop.simps [simp del]

lemma borderTopBottom_step:
  "i \<le> width \<Longrightarrow>
     borderTopBottom q width height i st
       = borderTopBottom q width height (i + borderStep q)
           (addPoint (real_of_int i) (real_of_int height) (addPoint (real_of_int i) 0 st))"
  by (subst borderTopBottom.simps) (rule if_P)

lemma borderTopBottom_done: "\<not> i \<le> width \<Longrightarrow> borderTopBottom q width height i st = st"
  by (subst borderTopBottom.simps) (rule if_not_P)

lemma borderLeftRight_step:
  "i \<le> height \<Longrightarrow>
     borderLeftRight q width height i st
       = borderLeftRight q width height (i + borderStep q)
           (addPoint (real_of_int width) (real_of_int i) (addPoint 0 (real_of_int i) st))"
  by (subst borderLeftRight.simps) (rule if_P)

lemma borderLeftRight_done: "\<not> i \<le> height \<Longrightarrow> borderLeftRight q width height i st = st"
  by (subst borderLeftRight.simps) (rule if_not_P)

lemma extends_borderTopBottom: "extends st (borderTopBottom q width height i st)"
proof (induction q width height i st rule: borderTopBottom.induct)
  case (1 q width height i st)
  show ?case
  proof (cases "i \<le> width")
    case True
    have "extends st (addPoint (real_of_int i) (real_of_int height)
                        (addPoint (real_of_int i) 0 st))"
      by (rule extends_trans [OF extends_addPoint extends_addPoint])
    from extends_trans [OF this 1 [OF True]] show ?thesis
      by (simp only: borderTopBottom_step [OF True])
  next
    case False
    then show ?thesis by (simp add: borderTopBottom_done extends_refl)
  qed
qed

lemma extends_borderLeftRight: "extends st (borderLeftRight q width height i st)"
proof (induction q width height i st rule: borderLeftRight.induct)
  case (1 q width height i st)
  show ?case
  proof (cases "i \<le> height")
    case True
    have "extends st (addPoint (real_of_int width) (real_of_int i)
                        (addPoint 0 (real_of_int i) st))"
      by (rule extends_trans [OF extends_addPoint extends_addPoint])
    from extends_trans [OF this 1 [OF True]] show ?thesis
      by (simp only: borderLeftRight_step [OF True])
  next
    case False
    then show ?thesis by (simp add: borderLeftRight_done extends_refl)
  qed
qed

lemma extends_borderLattice: "extends st (borderLattice q width height st)"
  unfolding borderLattice_def
  by (rule extends_trans [OF extends_borderTopBottom extends_borderLeftRight])

lemma extends_flatCell: "extends st (flatCell rand q width height cx cy cellSize depth st)"
proof (cases "depth = 0")
  case False
  then show ?thesis by (simp add: flatCell_def extends_refl)
next
  case True
  show ?thesis
  proof (cases "rand (randomCalls st) < randomProb q")
    case hit: True
    have "extends st (addPoint x y (st\<lparr> randomCalls := k \<rparr>))" for x y k
      by (rule extends_trans [OF extends_randomCalls extends_addPoint])
    then show ?thesis using True hit by (simp add: flatCell_def Let_def)
  next
    case miss: False
    then show ?thesis using True by (simp add: flatCell_def Let_def extends_randomCalls)
  qed
qed

lemma extends_processCell:
  "extends st (processCell rand q width height sobelData cx cy cellSize depth st)"
proof (induction rand q width height sobelData cx cy cellSize depth st
        rule: processCell.induct)
  case (1 rand q width height sobelData cx cy cellSize depth st)
  obtain maxGrad maxX maxY
    where scan: "cellScan sobelData width height cx cy cellSize = (maxGrad, maxX, maxY)"
    by (cases "cellScan sobelData width height cx cy cellSize") auto
  show ?case
  proof (cases "maxGrad > salientThreshold q \<and> depth < maxDepth \<and> cellSize > 6")
    case True
    define half where "half = cellSize div 2"
    define st1 where
      "st1 = processCell rand q width height sobelData cx cy half (depth + 1) st"
    define st2 where
      "st2 = processCell rand q width height sobelData (cx + half) cy half (depth + 1) st1"
    define st3 where
      "st3 = processCell rand q width height sobelData cx (cy + half) half (depth + 1) st2"
    define st4 where
      "st4 = processCell rand q width height sobelData (cx + half) (cy + half) half
               (depth + 1) st3"
    have e1: "extends st st1"
      unfolding st1_def half_def by (rule 1(1) [OF scan [symmetric] refl True refl])
    have e2: "extends st1 st2"
      unfolding st2_def st1_def half_def
      by (rule 1(2) [OF scan [symmetric] refl True refl refl])
    have e3: "extends st2 st3"
      unfolding st3_def st2_def st1_def half_def
      by (rule 1(3) [OF scan [symmetric] refl True refl refl refl])
    have e4: "extends st3 st4"
      unfolding st4_def st3_def st2_def st1_def half_def
      by (rule 1(4) [OF scan [symmetric] refl True refl refl refl refl])
    have unfolded: "processCell rand q width height sobelData cx cy cellSize depth st = st4"
      unfolding st4_def st3_def st2_def st1_def half_def
      by (subst processCell.simps) (simp only: scan prod.case True if_True Let_def simp_thms)
    have "extends st st4"
      by (rule extends_trans [OF extends_trans [OF extends_trans [OF e1 e2] e3] e4])
    then show ?thesis by (simp only: unfolded)
  next
    case False
    have "processCell rand q width height sobelData cx cy cellSize depth st
        = (if maxGrad > threshold q
           then addPoint (real_of_int maxX) (real_of_int maxY) st
           else flatCell rand q width height cx cy cellSize depth st)"
      by (subst processCell.simps) (simp only: scan prod.case False if_False)
    then show ?thesis by (simp add: extends_addPoint extends_flatCell)
  qed
qed


lemma gridRow_step:
  "x < width \<Longrightarrow>
     gridRow rand q width height sobelData y x st
       = gridRow rand q width height sobelData y (x + baseCellSize q)
           (processCell rand q width height sobelData x y (baseCellSize q) 0 st)"
  by (subst gridRow.simps) (rule if_P)

lemma gridRow_done: "\<not> x < width \<Longrightarrow> gridRow rand q width height sobelData y x st = st"
  by (subst gridRow.simps) (rule if_not_P)

lemma gridRows_step:
  "y < height \<Longrightarrow>
     gridRows rand q width height sobelData y st
       = gridRows rand q width height sobelData (y + baseCellSize q)
           (gridRow rand q width height sobelData y 0 st)"
  by (subst gridRows.simps) (rule if_P)

lemma gridRows_done: "\<not> y < height \<Longrightarrow> gridRows rand q width height sobelData y st = st"
  by (subst gridRows.simps) (rule if_not_P)

lemma extends_gridRow: "extends st (gridRow rand q width height sobelData y x st)"
proof (induction rand q width height sobelData y x st rule: gridRow.induct)
  case (1 rand q width height sobelData y x st)
  show ?case
  proof (cases "x < width")
    case True
    from extends_trans [OF extends_processCell 1 [OF True]] show ?thesis
      by (simp only: gridRow_step [OF True])
  next
    case False
    then show ?thesis by (simp add: gridRow_done extends_refl)
  qed
qed

lemma extends_gridRows: "extends st (gridRows rand q width height sobelData y st)"
proof (induction rand q width height sobelData y st rule: gridRows.induct)
  case (1 rand q width height sobelData y st)
  show ?case
  proof (cases "y < height")
    case True
    from extends_trans [OF extends_gridRow 1 [OF True]] show ?thesis
      by (simp only: gridRows_step [OF True])
  next
    case False
    then show ?thesis by (simp add: gridRows_done extends_refl)
  qed
qed

lemma samplePoints_unfold:
  "samplePoints rand quality width height blurredData =
     (if quality > 0
      then gridRows rand (quality / 100) width height (sobelPass blurredData width height) 0
             (borderLattice (quality / 100) width height
                (addCorners width height emptySampler))
      else addCorners width height emptySampler)"
  by (simp add: samplePoints_def Let_def)

lemma extends_samplePoints:
  "extends (addCorners width height emptySampler)
     (samplePoints rand quality width height blurredData)"
  unfolding samplePoints_unfold
  by (simp add: extends_refl extends_trans [OF extends_borderLattice extends_gridRows])

subsection \<open>Refinement extends the point array\<close>

lemma pushMid_addPoint: "fst (pushMid mid (st, added)) = addPoint (fst mid) (snd mid) st"
  by (simp add: pushMid_def addPoint_def Let_def)

lemma extends_pushMid: "extends (fst sa) (fst (pushMid mid sa))"
  using extends_addPoint [of "fst sa" "fst mid" "snd mid"]
    pushMid_addPoint [of mid "fst sa" "snd sa"]
  by simp

lemma extends_refineTriangle:
  "extends (fst sa) (fst (refineTriangle fp width height trianglesData i sa))"
  by (simp add: refineTriangle_def Let_def extends_refl extends_pushMid
        split: option.splits)

lemma refineTriangles_step:
  "i < length trianglesData \<Longrightarrow>
     refineTriangles fp width height trianglesData i sa
       = refineTriangles fp width height trianglesData (i + 3)
           (refineTriangle fp width height trianglesData i sa)"
  by (subst refineTriangles.simps) (rule if_P)

lemma refineTriangles_done:
  "\<not> i < length trianglesData \<Longrightarrow> refineTriangles fp width height trianglesData i sa = sa"
  by (subst refineTriangles.simps) (rule if_not_P)

lemma extends_refineTriangles:
  "extends (fst sa) (fst (refineTriangles fp width height trianglesData i sa))"
proof (induction fp width height trianglesData i sa rule: refineTriangles.induct)
  case (1 fp width height trianglesData i sa)
  show ?case
  proof (cases "i < length trianglesData")
    case True
    from extends_trans [OF extends_refineTriangle 1 [OF True]] show ?thesis
      by (simp only: refineTriangles_step [OF True])
  next
    case False
    then show ?thesis by (simp add: refineTriangles_done extends_refl)
  qed
qed

lemma extends_refinePass: "extends st (fst (refinePass fp delaunay width height st))"
  using extends_refineTriangles [of "(st, 0)" fp width height "delaunay (points st)" 0]
  by (simp add: refinePass_def)

lemma refineLoop_unfold:
  "refineLoop fp delaunay width height pass st =
     (if pass < refinementPasses
      then if snd (refinePass fp delaunay width height st) = 0
           then fst (refinePass fp delaunay width height st)
           else refineLoop fp delaunay width height (pass + 1)
                  (fst (refinePass fp delaunay width height st))
      else st)"
  by (subst refineLoop.simps) (simp add: case_prod_unfold)

lemma extends_refineLoop: "extends st (refineLoop fp delaunay width height pass st)"
proof (induction fp delaunay width height pass st rule: refineLoop.induct)
  case (1 fp delaunay width height pass st)
  show ?case
  proof (cases "pass < refinementPasses")
    case False
    then show ?thesis by (subst refineLoop_unfold) (simp add: extends_refl)
  next
    case True
    show ?thesis
    proof (cases "snd (refinePass fp delaunay width height st) = 0")
      case stop: True
      then show ?thesis using True
        by (subst refineLoop_unfold) (simp add: extends_refinePass)
    next
      case go: False
      have "extends (fst (refinePass fp delaunay width height st))
              (refineLoop fp delaunay width height (pass + 1)
                 (fst (refinePass fp delaunay width height st)))"
        by (rule 1 [OF True _ go]) simp
      from extends_trans [OF extends_refinePass this] show ?thesis
        using True go by (subst refineLoop_unfold) simp
    qed
  qed
qed

lemma pointPipeline_unfold:
  "pointPipeline fp rand delaunay quality width height blurredData =
     (if quality > 0
      then points (refineLoop fp delaunay width height 0
                     (samplePoints rand quality width height blurredData))
      else points (samplePoints rand quality width height blurredData))"
  by (simp add: pointPipeline_def Let_def)

lemma extends_pointPipeline:
  "\<exists>st. extends (samplePoints rand quality width height blurredData) st
      \<and> pointPipeline fp rand delaunay quality width height blurredData = points st"
  unfolding pointPipeline_unfold
  by (cases "quality > 0") (auto intro: extends_refl extends_refineLoop)

subsection \<open>The produced point list\<close>

lemma prefix_extends: "extends a b \<Longrightarrow> prefix (points a) (points b)"
  by (simp add: extends_def)

lemma samplerInv_extends: "extends a b \<Longrightarrow> samplerInv a \<Longrightarrow> samplerInv b"
  by (simp add: extends_def)

lemma samplerInv_addCorners: "samplerInv (addCorners width height emptySampler)"
  by (rule samplerInv_extends [OF extends_addCorners samplerInv_empty])

lemma toFixed1_zero_nonzero: "n \<noteq> 0 \<Longrightarrow> toFixed1 0 \<noteq> toFixed1 (real_of_int n)"
proof (rule toFixed1_apart)
  assume "n \<noteq> 0"
  then have "1 \<le> \<bar>n\<bar>" by simp
  then have "1 \<le> \<bar>real_of_int n\<bar>" by linarith
  then show "1 / 10 \<le> \<bar>0 - real_of_int n\<bar>" by simp
qed

lemma points_addCorners:
  assumes "width \<noteq> 0" "height \<noteq> 0"
  shows "points (addCorners width height emptySampler)
           = [(0, 0), (real_of_int width, 0), (0, real_of_int height),
              (real_of_int width, real_of_int height)]"
  using toFixed1_zero_nonzero [OF assms(1)] toFixed1_zero_nonzero [OF assms(2)]
  by (simp add: addCorners_def addPoint_def emptySampler_def pointKey_def Let_def)

lemma pointPipeline_keys:
  "distinct (map keyOf (pointPipeline fp rand delaunay quality width height blurredData))
   \<and> prefix (points (addCorners width height emptySampler))
        (pointPipeline fp rand delaunay quality width height blurredData)"
proof -
  obtain st where st: "extends (samplePoints rand quality width height blurredData) st"
      "pointPipeline fp rand delaunay quality width height blurredData = points st"
    using extends_pointPipeline by blast
  have ext: "extends (addCorners width height emptySampler) st"
    by (rule extends_trans [OF extends_samplePoints st(1)])
  have "samplerInv st"
    by (rule samplerInv_extends [OF ext samplerInv_addCorners])
  then have "distinct (map keyOf (points st))"
    by (simp add: samplerInv_def)
  then show ?thesis using prefix_extends [OF ext] by (simp add: st(2))
qed

text \<open>
  C5. \<^verbatim>\<open>processImage\<close> produces a point list exactly when the drawing context exists and
  neither dimension is 0 (a zero-sized read of the canvas raises before the first point
  is added, so no list is produced then). Every list it produces has no two points
  with the same key and starts with the four image corners, so it holds at least four
  points, for every quality.
\<close>

theorem produced_points_distinct_keys:
  "(processImage fp rand delaunay ctx quality width height blurredData
      = Inl ResourceUnavailable \<longleftrightarrow> \<not> ctx)
   \<and> (processImage fp rand delaunay ctx quality width height blurredData
      = Inl IndexSizeError \<longleftrightarrow> ctx \<and> (width = 0 \<or> height = 0))
   \<and> (ctx \<and> width \<noteq> 0 \<and> height \<noteq> 0 \<longrightarrow>
        (\<exists>pts. processImage fp rand delaunay ctx quality width height blurredData = Inr pts))
   \<and> (\<forall>pts. processImage fp rand delaunay ctx quality width height blurredData = Inr pts \<longrightarrow>
        distinct (map keyOf pts)
      \<and> prefix [(0, 0), (real_of_int width, 0), (0, real_of_int height),
                 (real_of_int width, real_of_int height)] pts
      \<and> 4 \<le> length pts)"
proof (intro conjI allI impI)
  show "processImage fp rand delaunay ctx quality width height blurredData
          = Inl ResourceUnavailable \<longleftrightarrow> \<not> ctx"
    by (simp add: processImage_def)
  show "processImage fp rand delaunay ctx quality width height blurredData
          = Inl IndexSizeError \<longleftrightarrow> ctx \<and> (width = 0 \<or> height = 0)"
    by (auto simp: processImage_def)
  show "\<exists>pts. processImage fp rand delaunay ctx quality width height blurredData = Inr pts"
    if "ctx \<and> width \<noteq> 0 \<and> height \<noteq> 0"
    using that by (simp add: processImage_def)
next
  fix pts
  assume "processImage fp rand delaunay ctx quality width height blurredData = Inr pts"
  then have nz: "width \<noteq> 0" "height \<noteq> 0"
    and pts: "pts = pointPipeline fp rand delaunay quality width height blurredData"
    by (auto simp: processImage_def split: if_splits)
  from pointPipeline_keys [of fp rand delaunay quality width height blurredData]
  have d: "distinct (map keyOf pts)"
    and p: "prefix [(0, 0), (real_of_int width, 0), (0, real_of_int height),
                    (real_of_int width, real_of_int height)] pts"
    unfolding pts points_addCorners [OF nz] by simp_all
  show "distinct (map keyOf pts)" by (rule d)
  show "prefix [(0, 0), (real_of_int width, 0), (0, real_of_int height),
                (real_of_int width, real_of_int height)] pts" by (rule p)
  show "4 \<le> length pts" using prefix_length_le [OF p] by simp
qed

lemma demo_corners:
  "processImage exactMachine constRandom noTriangles True 0 3 2 (replicate 24 0)
     = Inr [(0, 0), (3, 0), (0, 2), (3, 2)]"
  using points_addCorners [of 3 2]
  by (simp add: processImage_def pointPipeline_unfold samplePoints_unfold)

theorem produced_points_distinct_keys_witness:
  "processImage exactMachine constRandom noTriangles True 0 3 2 (replicate 24 0)
     = Inr [(0, 0), (3, 0), (0, 2), (3, 2)]
   \<and> distinct (map keyOf [(0, 0), (3, 0), (0, 2), (3, 2)])
   \<and> 4 \<le> length [(0, 0), (3, 0), (0, 2), (3 :: real, 2 :: real)]
   \<and> processImage exactMachine constRandom noTriangles True 0 0 2 [] = Inl IndexSizeError"
proof -
  note t = produced_points_distinct_keys
    [of exactMachine constRandom noTriangles True 0 3 2 "replicate 24 0"]
  have "distinct (map keyOf [(0, 0), (3, 0), (0, 2), (3, 2)])"
    using conjunct2 [OF conjunct2 [OF conjunct2 [OF t]], THEN spec,
        of "[(0, 0), (3, 0), (0, 2), (3, 2)]"] demo_corners
    by blast
  moreover have "processImage exactMachine constRandom noTriangles True 0 0 2 [] = Inl IndexSizeError"
    using produced_points_distinct_keys [of exactMachine constRandom noTriangles True 0 0 2 "[]"]
    by simp
  ultimately show ?thesis using demo_corners by simp
qed

text \<open>
  C10. Refinement only appends: the point array before a pass, and before the whole
  loop, is a prefix of the array after it, and the sampled points are a prefix of the
  final point list.
\<close>

theorem refinement_append_only:
  "prefix (points st) (points (fst (refinePass fp delaunay width height st)))
   \<and> prefix (points st) (points (refineLoop fp delaunay width height pass st))
   \<and> prefix (points (samplePoints rand quality width height blurredData))
        (pointPipeline fp rand delaunay quality width height blurredData)"
proof -
  obtain st' where "extends (samplePoints rand quality width height blurredData) st'"
      "pointPipeline fp rand delaunay quality width height blurredData = points st'"
    using extends_pointPipeline by blast
  then show ?thesis
    using prefix_extends [OF extends_refinePass] prefix_extends [OF extends_refineLoop]
      prefix_extends
    by metis
qed

subsection \<open>Border lattice\<close>

lemma toFixed1_of_int_inj:
  assumes "toFixed1 (real_of_int a) = toFixed1 (real_of_int b)"
  shows "a = b"
proof (cases "10 ^ 21 \<le> \<bar>real_of_int a\<bar>")
  case True
  then show ?thesis using assms by (auto simp: toFixed1_def split: if_splits)
next
  case False
  then have small: "\<not> 10 ^ 21 \<le> \<bar>real_of_int b\<bar>" using assms
    by (auto simp: toFixed1_def split: if_splits)
  from assms False small have sgn: "(a < 0) = (b < 0)"
    and fl: "\<lfloor>10 * \<bar>real_of_int a\<bar> + 1 / 2\<rfloor> = \<lfloor>10 * \<bar>real_of_int b\<bar> + 1 / 2\<rfloor>"
    by (auto simp: toFixed1_def)
  have "\<lfloor>10 * \<bar>real_of_int c\<bar> + 1 / 2\<rfloor> = 10 * \<bar>c\<bar>" for c :: int
    by (rule floor_unique) simp_all
  with fl have "\<bar>a\<bar> = \<bar>b\<bar>" by simp
  with sgn show ?thesis by (auto simp: abs_if split: if_splits)
qed

lemma keyOf_integral_inj:
  "integral p \<Longrightarrow> integral p' \<Longrightarrow> keyOf p = keyOf p' \<Longrightarrow> p = p'"
  by (auto simp: integral_def keyOf_def pointKey_def dest: toFixed1_of_int_inj)

lemma integralInv_addPoint:
  assumes "integralInv st"
  shows "integralInv (addPoint (real_of_int i) (real_of_int j) st)
       \<and> set (points (addPoint (real_of_int i) (real_of_int j) st))
           = insert (real_of_int i, real_of_int j) (set (points st))"
proof (cases "pointKey (real_of_int i) (real_of_int j) \<in> pointsMap st")
  case False
  have "samplerInv (addPoint (real_of_int i) (real_of_int j) st)"
    using assms extends_addPoint [of st] by (simp add: integralInv_def extends_def)
  then show ?thesis using False assms
    by (auto simp: addPoint_new integralInv_def integral_def)
next
  case True
  then obtain p where p: "p \<in> set (points st)"
      "keyOf p = keyOf (real_of_int i, real_of_int j)"
    using assms by (auto simp: integralInv_def samplerInv_def keyOf_def)
  have "integral p" using p(1) assms by (simp add: integralInv_def)
  moreover have "integral (real_of_int i, real_of_int j)" by (auto simp: integral_def)
  ultimately have "p = (real_of_int i, real_of_int j)"
    using p(2) by (rule keyOf_integral_inj)
  with p(1) True assms show ?thesis by (auto simp: addPoint_old)
qed

lemma borderStep_pos: "0 < borderStep q"
  by (simp add: borderStep_def)

lemma multiples_iff:
  "x \<in> multiples step start bound \<longleftrightarrow> (\<exists>k. 0 \<le> k \<and> x = start + k * step \<and> x \<le> bound)"
  unfolding multiples_def by blast

lemma multiples_step:
  assumes "start \<le> bound" "0 < step"
  shows "multiples step start bound = insert start (multiples step (start + step) bound)"
proof (rule set_eqI, rule iffI)
  fix x assume "x \<in> multiples step start bound"
  then obtain k where k: "0 \<le> k" "x = start + k * step" "x \<le> bound"
    unfolding multiples_iff by blast
  show "x \<in> insert start (multiples step (start + step) bound)"
  proof (cases "k = 0")
    case True
    then show ?thesis using k by simp
  next
    case False
    then have "0 \<le> k - 1 \<and> x = (start + step) + (k - 1) * step \<and> x \<le> bound"
      using k by (simp add: algebra_simps)
    then have "x \<in> multiples step (start + step) bound"
      unfolding multiples_iff by (rule exI)
    then show ?thesis by simp
  qed
next
  fix x assume "x \<in> insert start (multiples step (start + step) bound)"
  then consider "x = start" | "x \<in> multiples step (start + step) bound"
    by blast
  then show "x \<in> multiples step start bound"
  proof cases
    case 1
    then have "0 \<le> (0::int) \<and> x = start + 0 * step \<and> x \<le> bound"
      using assms(1) by simp
    then show ?thesis unfolding multiples_iff by (rule exI)
  next
    case 2
    then obtain k where k: "0 \<le> k" "x = (start + step) + k * step" "x \<le> bound"
      unfolding multiples_iff by blast
    then have "0 \<le> k + 1 \<and> x = start + (k + 1) * step \<and> x \<le> bound"
      by (simp add: algebra_simps)
    then show ?thesis unfolding multiples_iff by (rule exI)
  qed
qed

lemma multiples_empty:
  assumes "bound < start" "0 < step"
  shows "multiples step start bound = {}"
proof -
  have "\<not> (0 \<le> k \<and> x = start + k * step \<and> x \<le> bound)" for k x
  proof
    assume a: "0 \<le> k \<and> x = start + k * step \<and> x \<le> bound"
    then have "0 \<le> k * step" using assms(2) by simp
    with a assms(1) show False by linarith
  qed
  then show ?thesis unfolding multiples_def by blast
qed

lemma borderTopBottom_points:
  "integralInv st \<Longrightarrow>
     integralInv (borderTopBottom q width height i st)
     \<and> set (points (borderTopBottom q width height i st))
         = set (points st)
           \<union> (\<lambda>x. (real_of_int x, 0)) ` multiples (borderStep q) i width
           \<union> (\<lambda>x. (real_of_int x, real_of_int height)) ` multiples (borderStep q) i width"
proof (induction q width height i st rule: borderTopBottom.induct)
  case (1 q width height i st)
  show ?case
  proof (cases "i \<le> width")
    case False
    then show ?thesis using 1(2)
      by (simp add: borderTopBottom_done multiples_empty borderStep_pos)
  next
    case True
    define st1 where "st1 = addPoint (real_of_int i) 0 st"
    define st2 where "st2 = addPoint (real_of_int i) (real_of_int height) st1"
    have s1: "integralInv st1" "set (points st1) = insert (real_of_int i, 0) (set (points st))"
      using integralInv_addPoint [OF 1(2), of i 0] by (simp_all add: st1_def)
    have s2: "integralInv st2"
      "set (points st2) = insert (real_of_int i, real_of_int height) (set (points st1))"
      using integralInv_addPoint [OF s1(1), of i height] by (simp_all add: st2_def)
    have ih: "integralInv (borderTopBottom q width height (i + borderStep q) st2)
       \<and> set (points (borderTopBottom q width height (i + borderStep q) st2))
           = set (points st2)
             \<union> (\<lambda>x. (real_of_int x, 0)) ` multiples (borderStep q) (i + borderStep q) width
             \<union> (\<lambda>x. (real_of_int x, real_of_int height))
                 ` multiples (borderStep q) (i + borderStep q) width"
      using 1(1) [OF True] s2(1) by (simp add: st2_def st1_def)
    have unfold: "borderTopBottom q width height i st
                    = borderTopBottom q width height (i + borderStep q) st2"
      by (simp add: borderTopBottom_step [OF True] st2_def st1_def)
    show ?thesis
      unfolding unfold multiples_step [OF True borderStep_pos]
      using ih s1(2) s2(2) by auto
  qed
qed

lemma borderLeftRight_points:
  "integralInv st \<Longrightarrow>
     integralInv (borderLeftRight q width height i st)
     \<and> set (points (borderLeftRight q width height i st))
         = set (points st)
           \<union> (\<lambda>y. (0, real_of_int y)) ` multiples (borderStep q) i height
           \<union> (\<lambda>y. (real_of_int width, real_of_int y)) ` multiples (borderStep q) i height"
proof (induction q width height i st rule: borderLeftRight.induct)
  case (1 q width height i st)
  show ?case
  proof (cases "i \<le> height")
    case False
    then show ?thesis using 1(2)
      by (simp add: borderLeftRight_done multiples_empty borderStep_pos)
  next
    case True
    define st1 where "st1 = addPoint 0 (real_of_int i) st"
    define st2 where "st2 = addPoint (real_of_int width) (real_of_int i) st1"
    have s1: "integralInv st1" "set (points st1) = insert (0, real_of_int i) (set (points st))"
      using integralInv_addPoint [OF 1(2), of 0 i] by (simp_all add: st1_def)
    have s2: "integralInv st2"
      "set (points st2) = insert (real_of_int width, real_of_int i) (set (points st1))"
      using integralInv_addPoint [OF s1(1), of width i] by (simp_all add: st2_def)
    have ih: "integralInv (borderLeftRight q width height (i + borderStep q) st2)
       \<and> set (points (borderLeftRight q width height (i + borderStep q) st2))
           = set (points st2)
             \<union> (\<lambda>y. (0, real_of_int y)) ` multiples (borderStep q) (i + borderStep q) height
             \<union> (\<lambda>y. (real_of_int width, real_of_int y))
                 ` multiples (borderStep q) (i + borderStep q) height"
      using 1(1) [OF True] s2(1) by (simp add: st2_def st1_def)
    have unfold: "borderLeftRight q width height i st
                    = borderLeftRight q width height (i + borderStep q) st2"
      by (simp add: borderLeftRight_step [OF True] st2_def st1_def)
    show ?thesis
      unfolding unfold multiples_step [OF True borderStep_pos]
      using ih s1(2) s2(2) by auto
  qed
qed

lemma integralInv_empty: "integralInv emptySampler"
  by (simp add: integralInv_def samplerInv_empty) (simp add: emptySampler_def)

lemma addCorners_points:
  "integralInv (addCorners width height emptySampler)
   \<and> set (points (addCorners width height emptySampler)) = cornerSet width height"
proof -
  define s1 where "s1 = addPoint 0 0 emptySampler"
  define s2 where "s2 = addPoint (real_of_int width) 0 s1"
  define s3 where "s3 = addPoint 0 (real_of_int height) s2"
  define s4 where "s4 = addPoint (real_of_int width) (real_of_int height) s3"
  have 1: "integralInv s1" "set (points s1) = {(0, 0)}"
    using integralInv_addPoint [OF integralInv_empty, of 0 0]
    by (simp_all add: s1_def) (simp add: emptySampler_def)
  have 2: "integralInv s2" "set (points s2) = insert (real_of_int width, 0) (set (points s1))"
    using integralInv_addPoint [OF 1(1), of width 0] by (simp_all add: s2_def)
  have 3: "integralInv s3" "set (points s3) = insert (0, real_of_int height) (set (points s2))"
    using integralInv_addPoint [OF 2(1), of 0 height] by (simp_all add: s3_def)
  have 4: "integralInv s4"
    "set (points s4) = insert (real_of_int width, real_of_int height) (set (points s3))"
    using integralInv_addPoint [OF 3(1), of width height] by (simp_all add: s4_def)
  have "addCorners width height emptySampler = s4"
    by (simp add: addCorners_def s4_def s3_def s2_def s1_def)
  then show ?thesis using 1 2 3 4 by (auto simp: cornerSet_def)
qed

lemma borderLattice_points:
  "set (points (borderLattice q width height (addCorners width height emptySampler)))
     = cornerSet width height \<union> latticeSet (borderStep q) width height"
proof -
  let ?c = "addCorners width height emptySampler"
  have c: "integralInv ?c" "set (points ?c) = cornerSet width height"
    using addCorners_points by simp_all
  note tb = borderTopBottom_points [OF c(1), of q width height 0]
  note lr = borderLeftRight_points [OF conjunct1 [OF tb], of q width height 0]
  show ?thesis
    unfolding borderLattice_def latticeSet_def
    using conjunct2 [OF tb] conjunct2 [OF lr] c(2) by auto
qed


text \<open>
  C4, as the code has it. For every quality above 0 (with \<open>q = quality / 100\<close>) the
  spacing is \<open>max 10 \<lfloor>100 - 90 q\<rfloor>\<close>; after the border stage the stored points are
  exactly the four corners and the points at the multiples of the spacing on the top,
  bottom, left and right edges; all of them are in the final point list. For quality 0
  (or below) no lattice is added and the list holds the corners only.
\<close>

theorem border_lattice_spacing:
  "(0 < quality \<longrightarrow>
       borderStep (quality / 100) = max 10 \<lfloor>100 - 90 * (quality / 100)\<rfloor>
     \<and> set (points (borderLattice (quality / 100) width height
                       (addCorners width height emptySampler)))
         = cornerSet width height \<union> latticeSet (borderStep (quality / 100)) width height
     \<and> latticeSet (borderStep (quality / 100)) width height
         \<subseteq> set (pointPipeline fp rand delaunay quality width height blurredData))
   \<and> (quality \<le> 0 \<longrightarrow>
       set (pointPipeline fp rand delaunay quality width height blurredData)
         = cornerSet width height)"
proof (intro conjI impI)
  show "borderStep (quality / 100) = max 10 \<lfloor>100 - 90 * (quality / 100)\<rfloor>"
    by (simp add: borderStep_def mult.commute)
  show "set (points (borderLattice (quality / 100) width height
                       (addCorners width height emptySampler)))
         = cornerSet width height \<union> latticeSet (borderStep (quality / 100)) width height"
    by (rule borderLattice_points)
next
  assume pos: "0 < quality"
  obtain st where st: "extends (samplePoints rand quality width height blurredData) st"
      "pointPipeline fp rand delaunay quality width height blurredData = points st"
    using extends_pointPipeline by blast
  have sp: "samplePoints rand quality width height blurredData
      = gridRows rand (quality / 100) width height (sobelPass blurredData width height) 0
          (borderLattice (quality / 100) width height
             (addCorners width height emptySampler))"
    using pos by (simp add: samplePoints_unfold)
  have "extends (borderLattice (quality / 100) width height
                   (addCorners width height emptySampler))
          (samplePoints rand quality width height blurredData)"
    unfolding sp by (rule extends_gridRows)
  from extends_trans [OF this st(1)] have "set (points (borderLattice (quality / 100) width height
                            (addCorners width height emptySampler)))
               \<subseteq> set (points st)"
    by (auto simp: extends_def dest: set_mono_prefix)
  then show "latticeSet (borderStep (quality / 100)) width height
         \<subseteq> set (pointPipeline fp rand delaunay quality width height blurredData)"
    by (simp add: borderLattice_points st(2))
next
  assume "quality \<le> 0"
  then show "set (pointPipeline fp rand delaunay quality width height blurredData)
         = cornerSet width height"
    using addCorners_points [of width height]
    by (simp add: pointPipeline_unfold samplePoints_unfold)
qed

lemma borderStep_half: "borderStep (1 / 2) = 55"
  by (simp add: borderStep_def)

theorem border_lattice_spacing_witness:
  "(0::real) < 50
   \<and> borderStep (50 / 100) = 55
   \<and> (55, 0) \<in> set (pointPipeline exactMachine constRandom noTriangles 50 100 60 (replicate 24000 0))
   \<and> (100, 55) \<in> set (pointPipeline exactMachine constRandom noTriangles 50 100 60 (replicate 24000 0))
   \<and> set (pointPipeline exactMachine constRandom noTriangles 0 100 60 (replicate 24000 0))
        = {(0, 0), (100, 0), (0, 60), (100, 60)}"
proof -
  have "0 \<le> (1::int) \<and> (55::int) = 0 + 1 * 55 \<and> (55::int) \<le> 100"
    by simp
  then have m1: "55 \<in> multiples 55 0 100"
    unfolding multiples_iff by (rule exI)
  have "0 \<le> (1::int) \<and> (55::int) = 0 + 1 * 55 \<and> (55::int) \<le> 60"
    by simp
  then have m2: "55 \<in> multiples 55 0 60"
    unfolding multiples_iff by (rule exI)
  note m = m1 m2
  have "(real_of_int 55, 0) \<in> latticeSet 55 100 60"
    and "(real_of_int 100, real_of_int 55) \<in> latticeSet 55 100 60"
    unfolding latticeSet_def using m by blast+
  then have l: "(55, 0) \<in> latticeSet 55 100 60" "(100, 55) \<in> latticeSet 55 100 60"
    by simp_all
  have pos: "(0::real) < 50" and neg: "(0::real) \<le> 0" by simp_all
  from border_lattice_spacing [of 50 100 60 exactMachine constRandom noTriangles "replicate 24000 0"]
    border_lattice_spacing [of 0 100 60 exactMachine constRandom noTriangles "replicate 24000 0"]
  show ?thesis using l pos neg
    by (auto simp: borderStep_half cornerSet_def)
qed

text \<open>
  At quality 6 the code's spacing is \<open>\<lfloor>94.6\<rfloor> = 94\<close> where rounding would give 95: on a
  200 by 100 image the top edge has a point at 94 and none at 95.
\<close>

theorem floor_not_round_counterexample:
  "borderStep (6 / 100) = 94
   \<and> max 10 (round (100 - 90 * (6 / 100 :: real))) = (95::int)
   \<and> (94, 0) \<in> set (points (borderLattice (6 / 100) 200 100 (addCorners 200 100 emptySampler)))
   \<and> (95, 0) \<notin> set (points (borderLattice (6 / 100) 200 100 (addCorners 200 100 emptySampler)))"
  by code_simp

subsection \<open>Mesh refinement\<close>

lemma edgeLength_spec: "edgeLength fp a b = spec_length fp a b"
  by (simp add: edgeLength_def spec_length_def fsub_def)

lemma heronArea_spec: "heronArea fp l1 l2 l3 = spec_area fp l1 l2 l3"
  by (simp add: heronArea_def spec_area_def fadd_def fsub_def fmul_def fdiv_def Let_def)

lemma Max_three: "Max {l1, l2, l3} = max (max l1 l2) (l3 :: real)"
  by (simp add: max.assoc)

lemma Min_three: "Min {l1, l2, l3} = min (min l1 l2) (l3 :: real)"
  by (simp add: min.assoc)

lemma needsSplit_spec:
  "needsSplit fp width height l1 l2 l3 = spec_needsSplit fp width height l1 l2 l3"
  unfolding needsSplit_def spec_needsSplit_def Max_three Min_three heronArea_spec
    fmul_def fdiv_def Let_def
  by (simp add: mult.commute)

lemma midOf_spec: "midOf fp a b = spec_midpoint fp a b"
  by (simp add: midOf_def spec_midpoint_def fadd_def fdiv_def)

lemma longestEdgeMid_spec:
  "longestEdgeMid fp l1 l2 l3 p1 p2 p3
     = spec_midpoint fp (fst (spec_longestEdge l1 l2 l3 p1 p2 p3))
                        (snd (spec_longestEdge l1 l2 l3 p1 p2 p3))"
proof -
  have a: "max (max l1 l2) l3 = l1 \<longleftrightarrow> l2 \<le> l1 \<and> l3 \<le> l1"
    by (auto simp: max_def)
  have b: "max (max l1 l2) l3 = l2 \<longleftrightarrow> l1 \<le> l2 \<and> l3 \<le> l2"
    by (auto simp: max_def)
  show ?thesis
    unfolding longestEdgeMid_def spec_longestEdge_def Let_def a b midOf_spec
    by simp
qed

lemma pushMid_eq:
  "pushMid mid (st, added)
     = (addPoint (fst mid) (snd mid) st,
        if keyOf mid \<in> pointsMap st then added else added + 1)"
  by (simp add: pushMid_def addPoint_def keyOf_def Let_def)

lemma cornerPoint_Some:
  "i < length trianglesData \<Longrightarrow> trianglesData ! i < length currentPoints \<Longrightarrow>
     cornerPoint currentPoints trianglesData i = Some (currentPoints ! (trianglesData ! i))"
  by (simp add: cornerPoint_def nthOpt_def)

lemma cornerPoint_None:
  "\<not> (i < length trianglesData \<and> trianglesData ! i < length currentPoints) \<Longrightarrow>
     cornerPoint currentPoints trianglesData i = None"
  by (auto simp: cornerPoint_def nthOpt_def)

text \<open>One triangle: the code does what the specification says.\<close>

lemma refineTriangle_spec_pair:
  "refineTriangle fp width height trianglesData i (st, added)
     = spec_refineTriangle fp width height trianglesData i (st, added)"
proof (cases "i + 2 < length trianglesData
              \<and> trianglesData ! i < length (points st)
              \<and> trianglesData ! (i + 1) < length (points st)
              \<and> trianglesData ! (i + 2) < length (points st)")
  case True
  then have c:
    "cornerPoint (points st) trianglesData i = Some (points st ! (trianglesData ! i))"
    "cornerPoint (points st) trianglesData (i + 1) = Some (points st ! (trianglesData ! (i + 1)))"
    "cornerPoint (points st) trianglesData (i + 2) = Some (points st ! (trianglesData ! (i + 2)))"
    by (simp_all add: cornerPoint_Some)
  have l: "refineTriangle fp width height trianglesData i (st, added)
      = (let p1 = points st ! (trianglesData ! i);
             p2 = points st ! (trianglesData ! (i + 1));
             p3 = points st ! (trianglesData ! (i + 2));
             l1 = spec_length fp p1 p2; l2 = spec_length fp p2 p3; l3 = spec_length fp p3 p1
         in if spec_needsSplit fp width height l1 l2 l3
            then pushMid (spec_midpoint fp (fst (spec_longestEdge l1 l2 l3 p1 p2 p3))
                                           (snd (spec_longestEdge l1 l2 l3 p1 p2 p3)))
                   (st, added)
            else (st, added))"
    unfolding refineTriangle_def fst_conv c edgeLength_spec needsSplit_spec longestEdgeMid_spec
    by (simp only: Let_def prod.case option.case)
  have r: "spec_refineTriangle fp width height trianglesData i (st, added)
      = (let p1 = points st ! (trianglesData ! i);
             p2 = points st ! (trianglesData ! (i + 1));
             p3 = points st ! (trianglesData ! (i + 2));
             l1 = spec_length fp p1 p2; l2 = spec_length fp p2 p3; l3 = spec_length fp p3 p1
         in if spec_needsSplit fp width height l1 l2 l3
            then pushMid (spec_midpoint fp (fst (spec_longestEdge l1 l2 l3 p1 p2 p3))
                                           (snd (spec_longestEdge l1 l2 l3 p1 p2 p3)))
                   (st, added)
            else (st, added))"
    unfolding spec_refineTriangle_def fst_conv snd_conv pushMid_eq
    using True by (simp only: Let_def simp_thms if_True)
  show ?thesis unfolding l r ..
next
  case False
  then consider "cornerPoint (points st) trianglesData i = None"
    | "cornerPoint (points st) trianglesData (i + 1) = None"
    | "cornerPoint (points st) trianglesData (i + 2) = None"
    using cornerPoint_None [of i trianglesData "points st"]
      cornerPoint_None [of "i + 1" trianglesData "points st"]
      cornerPoint_None [of "i + 2" trianglesData "points st"]
    by (cases "i + 2 < length trianglesData") auto
  then have "refineTriangle fp width height trianglesData i (st, added) = (st, added)"
    by cases (simp_all add: refineTriangle_def split: option.splits)
  moreover from False
  have "spec_refineTriangle fp width height trianglesData i (st, added) = (st, added)"
    unfolding spec_refineTriangle_def Let_def fst_conv snd_conv by (rule if_not_P)
  ultimately show ?thesis by simp
qed

lemma refineTriangle_spec:
  "refineTriangle fp width height trianglesData i sa
     = spec_refineTriangle fp width height trianglesData i sa"
  by (cases sa) (simp only: refineTriangle_spec_pair)

text \<open>The inner loop treats the triangles at \<open>i\<close>, \<open>i + 3\<close>, \<open>i + 6\<close>, ... in order.\<close>

lemma starts_Suc:
  "i < n \<Longrightarrow> (n - i + 2) div 3 = Suc ((n - (i + 3) + 2) div (3 :: nat))"
  by arith

lemma starts_empty: "\<not> i < n \<Longrightarrow> (n - i + 2) div (3 :: nat) = 0"
  by simp

lemma refineTriangles_fold:
  "refineTriangles fp width height trianglesData i sa
     = fold (refineTriangle fp width height trianglesData)
            (map (\<lambda>k. i + 3 * k) [0..<(length trianglesData - i + 2) div 3]) sa"
proof (induction fp width height trianglesData i sa rule: refineTriangles.induct)
  case (1 fp width height trianglesData i sa)
  show ?case
  proof (cases "i < length trianglesData")
    case True
    have "map (\<lambda>k. i + 3 * k) [0..<(length trianglesData - i + 2) div 3]
            = i # map (\<lambda>k. i + 3 + 3 * k) [0..<(length trianglesData - (i + 3) + 2) div 3]"
      unfolding starts_Suc [OF True] map_upt_Suc by simp
    with 1 [OF True] show ?thesis
      by (simp only: refineTriangles_step [OF True] fold_simps)
  next
    case False
    then show ?thesis
      by (simp only: refineTriangles_done [OF False] starts_empty [OF False]) simp
  qed
qed

lemma refinePass_spec:
  "refinePass fp delaunay width height st = spec_pass fp delaunay width height st"
proof -
  have f: "refineTriangle fp width height (delaunay (points st))
             = spec_refineTriangle fp width height (delaunay (points st))"
    by (intro ext) (rule refineTriangle_spec)
  show ?thesis
    unfolding refinePass_def spec_pass_def spec_triangleStarts_def refineTriangles_fold f
    by simp
qed

text \<open>The counter of a pass is the number of points the pass appended.\<close>

lemma pushMid_count:
  "snd (pushMid mid sa) + length (points (fst sa))
     = snd sa + length (points (fst (pushMid mid sa)))"
  by (cases sa) (simp add: pushMid_def Let_def)

lemma refineTriangle_count:
  "snd (refineTriangle fp width height trianglesData i sa) + length (points (fst sa))
     = snd sa + length (points (fst (refineTriangle fp width height trianglesData i sa)))"
  by (simp add: refineTriangle_def Let_def pushMid_count split: option.splits)

lemma refineTriangles_count:
  "snd (refineTriangles fp width height trianglesData i sa) + length (points (fst sa))
     = snd sa + length (points (fst (refineTriangles fp width height trianglesData i sa)))"
proof (induction fp width height trianglesData i sa rule: refineTriangles.induct)
  case (1 fp width height trianglesData i sa)
  show ?case
  proof (cases "i < length trianglesData")
    case True
    from 1 [OF True] refineTriangle_count [of fp width height trianglesData i sa]
    show ?thesis by (simp only: refineTriangles_step [OF True])
  next
    case False
    then show ?thesis by (simp add: refineTriangles_done)
  qed
qed

lemma refinePass_count:
  "snd (refinePass fp delaunay width height st)
     = length (points (fst (refinePass fp delaunay width height st))) - length (points st)"
  using refineTriangles_count [of fp width height "delaunay (points st)" 0 "(st, 0)"]
  by (simp add: refinePass_def)

text \<open>The outer loop: one pass, and one more exactly when the first appended a point.\<close>

lemma refineLoop_two_passes:
  "refineLoop fp delaunay width height 0 st =
     (if snd (refinePass fp delaunay width height st) = 0
      then fst (refinePass fp delaunay width height st)
      else fst (refinePass fp delaunay width height (fst (refinePass fp delaunay width height st))))"
proof -
  have last: "refineLoop fp delaunay width height pass s = s" if "refinementPasses \<le> pass"
    for s pass
    using that by (subst refineLoop_unfold) simp
  have second: "refineLoop fp delaunay width height (0 + 1) s
                  = fst (refinePass fp delaunay width height s)" for s
    by (subst refineLoop_unfold) (simp add: refinementPasses_def last)
  show ?thesis
    apply (subst refineLoop_unfold)
    apply (simp only: second)
    apply (simp add: refinementPasses_def)
    done
qed

lemma refineLoop_spec:
  "refineLoop fp delaunay width height 0 st = spec_refinement fp delaunay width height st"
  unfolding refineLoop_two_passes spec_refinement_def refinePass_spec ..

text \<open>
  C2. The refinement of the code is the refinement of the specification, for every
  rounding of the arithmetic and every triangulation.
  A triangle of the flat index array whose three corners exist is split exactly when
  the rule holds of its computed edge lengths and its computed area (Heron's formula,
  the radicand clamped at 0): longest edge over \<open>max 1\<close> shortest edge above 4 and area
  above 50, or area above 0.04 times width times height; a triangle with a missing
  corner is skipped. The split is an \<^const>\<open>addPoint\<close> of the midpoint of the first edge
  that no other edge exceeds, so it is subject to the same key, and it is counted when
  the key was new. A pass triangulates the whole current point array, treats the
  triangles at indices 0, 3, 6, ... in order, and its counter is the number of points
  it appended. The refinement runs one pass, stops if that pass appended nothing, and
  otherwise runs exactly one more: never more than two. With a positive quality the
  points handed to the triangulation are those of the refined sampler.
\<close>

theorem refinement_split_rule:
  "refineTriangle fp width height trianglesData i sa
     = spec_refineTriangle fp width height trianglesData i sa
   \<and> refinePass fp delaunay width height st = spec_pass fp delaunay width height st
   \<and> snd (refinePass fp delaunay width height st)
       = length (points (fst (refinePass fp delaunay width height st))) - length (points st)
   \<and> refinementPasses = 2
   \<and> refineLoop fp delaunay width height 0 st = spec_refinement fp delaunay width height st
   \<and> pointPipeline fp rand delaunay quality width height blurredData
       = (if quality > 0
          then points (spec_refinement fp delaunay width height
                         (samplePoints rand quality width height blurredData))
          else points (samplePoints rand quality width height blurredData))"
  unfolding pointPipeline_unfold refineLoop_spec
  using refineTriangle_spec [of fp width height trianglesData i sa]
    refinePass_spec [of fp delaunay width height st]
    refinePass_count [of fp delaunay width height st]
  by (simp add: refinementPasses_def)

text \<open>
  A run without rounding on a 1000 by 1000 image: the triangle with corners (0, 0),
  (300, 0), (0, 400) has edges 300, 500, 400 and area 60000, above 0.04 * 1000 * 1000 =
  40000, so it is split at the midpoint (150, 200) of its longest edge; the second pass
  finds the same triangle and its midpoint already stored.
\<close>

lemma demo_hypot:
  "sqrt ((- 300) * (- 300) + 0 * 0) = 300" "sqrt (300 * 300 + (- 400) * (- 400)) = 500"
  "sqrt (0 * 0 + 400 * 400) = 400"
  by (rule real_sqrt_unique; simp)+

lemma demo_lengths:
  "spec_length exactMachine (0, 0) (300, 0) = 300"
  "spec_length exactMachine (300, 0) (0, 400) = 500"
  "spec_length exactMachine (0, 400) (0, 0) = 400"
  using demo_hypot by (simp_all add: spec_length_def exactMachine_def)

lemma demo_area: "spec_area exactMachine 300 500 400 = 60000"
proof -
  have "sqrt 3600000000 = 60000" by (rule real_sqrt_unique) simp_all
  then show ?thesis by (simp add: spec_area_def exactMachine_def Let_def)
qed

lemma demo_split: "spec_needsSplit exactMachine 1000 1000 300 500 400"
  unfolding spec_needsSplit_def Let_def demo_area by (simp add: exactMachine_def)

lemma demo_mid:
  "spec_midpoint exactMachine (fst (spec_longestEdge 300 500 400 (0, 0) (300, 0) (0, 400)))
     (snd (spec_longestEdge 300 500 400 (0, 0) (300, 0) (0, 400))) = (150, 200)"
  by (simp add: spec_longestEdge_def spec_midpoint_def exactMachine_def)

lemma demo_new: "keyOf (150, 200) \<notin> pointsMap demoMesh"
  by (simp add: keyOf_def pointKey_def toFixed1_def demoMesh_def)

lemma demo_points:
  "points (addPoint 150 200 demoMesh) = [(0, 0), (300, 0), (0, 400), (150, 200)]"
  using demo_new by (simp add: addPoint_def keyOf_def Let_def) (simp add: demoMesh_def)

lemma demo_old: "keyOf (150, 200) \<in> pointsMap (addPoint 150 200 demoMesh)"
  using demo_new by (simp add: addPoint_def keyOf_def Let_def)

lemma demo_again: "addPoint 150 200 (addPoint 150 200 demoMesh) = addPoint 150 200 demoMesh"
  using demo_old by (simp add: addPoint_def [of 150 200 "addPoint 150 200 demoMesh"] keyOf_def)

lemma demo_first:
  "spec_refineTriangle exactMachine 1000 1000 [0, 1, 2] 0 (demoMesh, 0)
     = (addPoint 150 200 demoMesh, 1)"
  using demo_new
  by (simp add: spec_refineTriangle_def Let_def demoMesh_def [THEN arg_cong, of points]
        demo_lengths demo_split demo_mid)

lemma demo_second:
  "spec_refineTriangle exactMachine 1000 1000 [0, 1, 2] 0 (addPoint 150 200 demoMesh, 0)
     = (addPoint 150 200 demoMesh, 0)"
  using demo_old
  by (simp add: spec_refineTriangle_def Let_def demo_points demo_lengths demo_split demo_mid
        demo_again)

lemma demo_starts: "spec_triangleStarts (length [0 :: nat, 1, 2]) = [0]"
  by (simp add: spec_triangleStarts_def)

lemma demo_pass1:
  "spec_pass exactMachine demoTriangulation 1000 1000 demoMesh = (addPoint 150 200 demoMesh, 1)"
  unfolding spec_pass_def demoTriangulation_def demo_starts fold_simps demo_first
  by (rule refl)

lemma demo_pass2:
  "spec_pass exactMachine demoTriangulation 1000 1000 (addPoint 150 200 demoMesh)
     = (addPoint 150 200 demoMesh, 0)"
  unfolding spec_pass_def demoTriangulation_def demo_starts fold_simps demo_second
  by (rule refl)

theorem refinement_split_rule_witness:
  "refineTriangle exactMachine 1000 1000 [0, 1, 2] 0 (demoMesh, 0)
     = (addPoint 150 200 demoMesh, 1)
   \<and> refinePass exactMachine demoTriangulation 1000 1000 demoMesh
     = (addPoint 150 200 demoMesh, 1)
   \<and> refinePass exactMachine demoTriangulation 1000 1000 (addPoint 150 200 demoMesh)
     = (addPoint 150 200 demoMesh, 0)
   \<and> points (refineLoop exactMachine demoTriangulation 1000 1000 0 demoMesh)
     = [(0, 0), (300, 0), (0, 400), (150, 200)]"
proof -
  note r1 = refinement_split_rule
    [of exactMachine 1000 1000 "[0, 1, 2]" 0 "(demoMesh, 0)" demoTriangulation demoMesh
        constRandom 50 "[]"]
  note r2 = refinement_split_rule
    [of exactMachine 1000 1000 "[0, 1, 2]" 0 "(demoMesh, 0)" demoTriangulation
        "addPoint 150 200 demoMesh" constRandom 50 "[]"]
  have a: "refineTriangle exactMachine 1000 1000 [0, 1, 2] 0 (demoMesh, 0)
             = (addPoint 150 200 demoMesh, 1)"
    using conjunct1 [OF r1] by (simp only: demo_first)
  have b: "refinePass exactMachine demoTriangulation 1000 1000 demoMesh
             = (addPoint 150 200 demoMesh, 1)"
    using conjunct1 [OF conjunct2 [OF r1]] by (simp only: demo_pass1)
  have c: "refinePass exactMachine demoTriangulation 1000 1000 (addPoint 150 200 demoMesh)
             = (addPoint 150 200 demoMesh, 0)"
    using conjunct1 [OF conjunct2 [OF r2]] by (simp only: demo_pass2)
  have "refineLoop exactMachine demoTriangulation 1000 1000 0 demoMesh
          = addPoint 150 200 demoMesh"
    using conjunct1 [OF conjunct2 [OF conjunct2 [OF conjunct2 [OF conjunct2 [OF r1]]]]]
    by (simp add: spec_refinement_def demo_pass1 demo_pass2)
  with a b c show ?thesis by (simp add: demo_points)
qed

subsection \<open>Edge field\<close>

lemma pixel_index_bounds:
  fixes x y width height :: int
  assumes "0 \<le> x" "x < width" "0 \<le> y" "y < height"
  shows "0 \<le> y * width + x" "y * width + x < width * height"
proof -
  show "0 \<le> y * width + x" using assms by simp
  have "y * width \<le> (height - 1) * width"
    using assms by (intro mult_right_mono) auto
  then show "y * width + x < width * height"
    using assms by (simp add: algebra_simps)
qed

lemma pixel_div_mod:
  fixes x y width :: int
  assumes "0 \<le> x" "x < width"
  shows "(y * width + x) div width = y" "(y * width + x) mod width = x"
  using assms by simp_all

lemma getGray_luma:
  assumes "int (length data) = 4 * width * height"
    and "0 \<le> x + ox" "x + ox < width" "0 \<le> y + oy" "y + oy < height"
  shows "getGray data width x y ox oy = Some (luma data width (x + ox) (y + oy))"
proof -
  let ?idx = "((y + oy) * width + (x + ox)) * 4"
  have b: "0 \<le> ?idx" "?idx + 2 < int (length data)"
    using pixel_index_bounds [OF assms(2-5)] assms(1) by simp_all
  then have "readByte data ?idx = Some (data ! nat ?idx)"
    "readByte data (?idx + 1) = Some (data ! (nat ?idx + 1))"
    "readByte data (?idx + 2) = Some (data ! (nat ?idx + 2))"
    by (simp_all add: readByte_def nat_add_distrib)
  then show ?thesis
    by (simp add: getGray_def luma_def Let_def nanAdd_def nanMul_def byteNum_def
          mult.commute)
qed

lemma sobelGrad_interior:
  assumes "int (length data) = 4 * width * height"
    and "1 \<le> x" "x \<le> width - 2" "1 \<le> y" "y \<le> height - 2"
  shows "sobelGrad data width x y
           = Some (sqrt ((spec_gx data width x y)\<^sup>2 + (spec_gy data width x y)\<^sup>2))"
proof -
  have g: "getGray data width x y ox oy = Some (luma data width (x + ox) (y + oy))"
    if "ox \<in> {- 1, 0, 1}" "oy \<in> {- 1, 0, 1}" for ox oy
    using that assms by (intro getGray_luma [where height = height]) auto
  have gx: "sobelGx data width x y = Some (spec_gx data width x y)"
    by (simp add: sobelGx_def Let_def g nanAdd_def nanMul_def spec_gx_def)
  have gy: "sobelGy data width x y = Some (spec_gy data width x y)"
    by (simp add: sobelGy_def Let_def g nanAdd_def nanMul_def spec_gy_def)
  show ?thesis
    by (simp add: sobelGrad_def Let_def gx gy nanAdd_def nanMul_def nanSqrt_def
          power2_eq_square not_less)
qed

lemma length_writeCell: "length (writeCell arr idx v) = length arr"
  by (simp add: writeCell_def)

lemma nth_writeCell:
  "i < length arr \<Longrightarrow> writeCell arr idx v ! i = (if idx = int i then v else arr ! i)"
  by (auto simp: writeCell_def nth_list_update)

lemma row_fold:
  "length (fold (\<lambda>x a. writeCell a (base + x) (g x)) xs arr) = length arr
   \<and> (\<forall>i < length arr.
        fold (\<lambda>x a. writeCell a (base + x) (g x)) xs arr ! i
          = (if int i - base \<in> set xs then g (int i - base) else arr ! i))"
proof (induction xs arbitrary: arr)
  case Nil
  then show ?case by simp
next
  case (Cons x xs)
  let ?arr = "writeCell arr (base + x) (g x)"
  have len: "length ?arr = length arr" by (rule length_writeCell)
  have "fold (\<lambda>x a. writeCell a (base + x) (g x)) xs ?arr ! i
          = (if int i - base \<in> set (x # xs) then g (int i - base) else arr ! i)"
    if "i < length arr" for i
  proof -
    have "fold (\<lambda>x a. writeCell a (base + x) (g x)) xs ?arr ! i
            = (if int i - base \<in> set xs then g (int i - base) else ?arr ! i)"
      using Cons [of ?arr] that len by simp
    moreover have "?arr ! i = (if base + x = int i then g x else arr ! i)"
      using that by (rule nth_writeCell)
    moreover have "(base + x = int i) = (int i - base = x)" by auto
    ultimately show ?thesis by auto
  qed
  then show ?case using Cons [of ?arr] len by simp
qed

lemma sobelRow_nth:
  "length (sobelRow data width y arr) = length arr
   \<and> (\<forall>i < length arr.
        sobelRow data width y arr ! i
          = (if 1 \<le> int i - y * width \<and> int i - y * width \<le> width - 2
             then sobelGrad data width (int i - y * width) y else arr ! i))"
  using row_fold [of "y * width" "\<lambda>x. sobelGrad data width x y" "[1 .. width - 2]" arr]
  by (simp add: sobelRow_def)


lemma interior_value:
  fixes y width :: int
  assumes "1 \<le> int i - y * width" "int i - y * width \<le> width - 2"
  shows "int i div width = y" "int i mod width = int i - y * width"
proof -
  have "int i = y * width + (int i - y * width)" by simp
  moreover have "0 \<le> int i - y * width" "int i - y * width < width"
    using assms by simp_all
  ultimately show "int i div width = y" "int i mod width = int i - y * width"
    using pixel_div_mod [of "int i - y * width" width y] by simp_all
qed

lemma rows_fold:
  "length (fold (sobelRow data width) ys arr) = length arr
   \<and> (\<forall>i < length arr.
        fold (sobelRow data width) ys arr ! i
          = (if \<exists>y \<in> set ys. 1 \<le> int i - y * width \<and> int i - y * width \<le> width - 2
             then sobelGrad data width (int i mod width) (int i div width)
             else arr ! i))"
proof (induction ys arbitrary: arr)
  case Nil
  then show ?case by simp
next
  case (Cons y ys)
  let ?arr = "sobelRow data width y arr"
  have len: "length ?arr = length arr" using sobelRow_nth by blast
  have "fold (sobelRow data width) ys ?arr ! i
          = (if \<exists>y' \<in> set (y # ys). 1 \<le> int i - y' * width \<and> int i - y' * width \<le> width - 2
             then sobelGrad data width (int i mod width) (int i div width)
             else arr ! i)"
    if i: "i < length arr" for i
  proof (cases "\<exists>y' \<in> set ys. 1 \<le> int i - y' * width \<and> int i - y' * width \<le> width - 2")
    case True
    then show ?thesis using Cons [of ?arr] i len by auto
  next
    case False
    then have rest: "fold (sobelRow data width) ys ?arr ! i = ?arr ! i"
      using Cons [of ?arr] i len by auto
    show ?thesis
    proof (cases "1 \<le> int i - y * width \<and> int i - y * width \<le> width - 2")
      case here: True
      then have "?arr ! i = sobelGrad data width (int i - y * width) y"
        using sobelRow_nth [of data width y arr] i by simp
      also have "\<dots> = sobelGrad data width (int i mod width) (int i div width)"
        using interior_value [of i y width] here by simp
      finally show ?thesis using rest here by auto
    next
      case nothere: False
      then have "?arr ! i = arr ! i"
        using sobelRow_nth [of data width y arr] i by auto
      then show ?thesis using rest nothere False by auto
    qed
  qed
  then show ?case using Cons [of ?arr] len by simp
qed

lemma sobelPass_length: "length (sobelPass data width height) = nat (width * height)"
  using rows_fold [of data width "[1 .. height - 2]" "replicate (nat (width * height)) (Some 0)"]
  by (simp add: sobelPass_def)

lemma sobelPass_nth:
  assumes "i < nat (width * height)"
  shows "sobelPass data width height ! i
           = (if \<exists>y. 1 \<le> y \<and> y \<le> height - 2
                      \<and> 1 \<le> int i - y * width \<and> int i - y * width \<le> width - 2
              then sobelGrad data width (int i mod width) (int i div width)
              else Some 0)"
  using rows_fold [of data width "[1 .. height - 2]" "replicate (nat (width * height)) (Some 0)"]
    assms
  by (auto simp: sobelPass_def)

lemma sobelPass_pixel:
  assumes "0 \<le> x" "x < width" "0 \<le> y" "y < height"
  shows "sobelPass data width height ! nat (y * width + x)
           = (if 1 \<le> x \<and> x \<le> width - 2 \<and> 1 \<le> y \<and> y \<le> height - 2
              then sobelGrad data width x y else Some 0)"
proof -
  let ?i = "nat (y * width + x)"
  have b: "0 \<le> y * width + x" "y * width + x < width * height"
    using pixel_index_bounds [OF assms] by simp_all
  then have i: "?i < nat (width * height)" "int ?i = y * width + x" by simp_all
  have ex: "(\<exists>y'. 1 \<le> y' \<and> y' \<le> height - 2
              \<and> 1 \<le> int ?i - y' * width \<and> int ?i - y' * width \<le> width - 2)
            \<longleftrightarrow> (1 \<le> x \<and> x \<le> width - 2 \<and> 1 \<le> y \<and> y \<le> height - 2)"
  proof
    assume "\<exists>y'. 1 \<le> y' \<and> y' \<le> height - 2
              \<and> 1 \<le> int ?i - y' * width \<and> int ?i - y' * width \<le> width - 2"
    then obtain y' where y': "1 \<le> y'" "y' \<le> height - 2"
        "1 \<le> int ?i - y' * width" "int ?i - y' * width \<le> width - 2"
      by blast
    from interior_value [OF y'(3,4)] have "int ?i div width = y'"
      "int ?i mod width = int ?i - y' * width" by simp_all
    moreover have "int ?i div width = y" "int ?i mod width = x"
      using pixel_div_mod [OF assms(1,2), of y] i(2) by simp_all
    ultimately show "1 \<le> x \<and> x \<le> width - 2 \<and> 1 \<le> y \<and> y \<le> height - 2"
      using y' by simp
  next
    assume "1 \<le> x \<and> x \<le> width - 2 \<and> 1 \<le> y \<and> y \<le> height - 2"
    then have "1 \<le> y \<and> y \<le> height - 2
        \<and> 1 \<le> int ?i - y * width \<and> int ?i - y * width \<le> width - 2"
      using i(2) by simp
    then show "\<exists>y'. 1 \<le> y' \<and> y' \<le> height - 2
              \<and> 1 \<le> int ?i - y' * width \<and> int ?i - y' * width \<le> width - 2"
      by (rule exI)
  qed
  have dm: "int ?i mod width = x" "int ?i div width = y"
    using pixel_div_mod [OF assms(1,2), of y] i(2) by simp_all
  show ?thesis
    unfolding sobelPass_nth [OF i(1)] ex dm by (rule refl)
qed

lemma index_pixel:
  fixes width height :: int
  assumes "i < nat (width * height)" "0 < width"
  shows "0 \<le> int i mod width" "int i mod width < width" "0 \<le> int i div width"
    "int i div width < height" "i = nat (int i div width * width + int i mod width)"
proof -
  show "0 \<le> int i mod width" "int i mod width < width" using assms(2) by simp_all
  show "0 \<le> int i div width" using assms(2) by (simp add: pos_imp_zdiv_nonneg_iff)
  have lt: "int i < height * width" using assms(1) by (simp add: mult.commute)
  have "int i div width * width + int i mod width = int i" by simp
  moreover have "0 \<le> int i mod width" using assms(2) by simp
  ultimately have le: "int i div width * width \<le> int i" by linarith
  show "int i div width < height"
  proof (rule ccontr)
    assume "\<not> int i div width < height"
    then have "height * width \<le> int i div width * width"
      using assms(2) by (intro mult_right_mono) simp_all
    with le lt show False by linarith
  qed
  show "i = nat (int i div width * width + int i mod width)" by simp
qed


lemma sobelPass_cell_nonneg:
  assumes "int (length data) = 4 * width * height" "i < nat (width * height)"
  shows "\<exists>v. sobelPass data width height ! i = Some v \<and> 0 \<le> v"
proof (cases "\<exists>y. 1 \<le> y \<and> y \<le> height - 2
                \<and> 1 \<le> int i - y * width \<and> int i - y * width \<le> width - 2")
  case False
  have "sobelPass data width height ! i = Some 0"
    unfolding sobelPass_nth [OF assms(2)] using False by (rule if_not_P)
  then show ?thesis by simp
next
  case True
  then obtain y where y: "1 \<le> y" "y \<le> height - 2"
      "1 \<le> int i - y * width" "int i - y * width \<le> width - 2"
    by blast
  have "sobelPass data width height ! i
          = sobelGrad data width (int i mod width) (int i div width)"
    unfolding sobelPass_nth [OF assms(2)] using True by (rule if_P)
  also have "\<dots> = sobelGrad data width (int i - y * width) y"
    using interior_value [OF y(3,4)] by simp
  also have "\<dots> = Some (sqrt ((spec_gx data width (int i - y * width) y)\<^sup>2
                            + (spec_gy data width (int i - y * width) y)\<^sup>2))"
    by (rule sobelGrad_interior [OF assms(1) y(3,4) y(1,2)])
  finally show ?thesis by simp
qed

text \<open>
  C7. For a buffer of \<open>4 * width * height\<close> bytes the edge field has one cell per pixel,
  every cell holds a number that is not negative, every pixel of row 0, column 0, the
  last row and the last column holds 0, and every other pixel holds
  \<open>sqrt (gx\<^sup>2 + gy\<^sup>2)\<close> for the Sobel sums of the luma around it. (Numbers are
  real here; the rounding to 32-bit floats on storing is not modelled.)
\<close>

theorem edge_field_nonneg_border_zero:
  assumes "int (length blurredData) = 4 * width * height"
  shows "length (sobelPass blurredData width height) = nat (width * height)
       \<and> (\<forall>i < length (sobelPass blurredData width height).
             \<exists>v. sobelPass blurredData width height ! i = Some v \<and> 0 \<le> v)
       \<and> (\<forall>x y. 0 \<le> x \<and> x < width \<and> 0 \<le> y \<and> y < height
                 \<and> (x = 0 \<or> y = 0 \<or> x = width - 1 \<or> y = height - 1) \<longrightarrow>
               sobelPass blurredData width height ! nat (y * width + x) = Some 0)
       \<and> (\<forall>x y. 1 \<le> x \<and> x \<le> width - 2 \<and> 1 \<le> y \<and> y \<le> height - 2 \<longrightarrow>
               sobelPass blurredData width height ! nat (y * width + x)
                 = Some (sqrt ((spec_gx blurredData width x y)\<^sup>2
                               + (spec_gy blurredData width x y)\<^sup>2)))"
proof (intro conjI allI impI)
  show "length (sobelPass blurredData width height) = nat (width * height)"
    by (rule sobelPass_length)
next
  fix i assume "i < length (sobelPass blurredData width height)"
  then show "\<exists>v. sobelPass blurredData width height ! i = Some v \<and> 0 \<le> v"
    using sobelPass_cell_nonneg [OF assms] by (simp add: sobelPass_length)
next
  fix x y :: int
  assume "0 \<le> x \<and> x < width \<and> 0 \<le> y \<and> y < height
            \<and> (x = 0 \<or> y = 0 \<or> x = width - 1 \<or> y = height - 1)"
  then show "sobelPass blurredData width height ! nat (y * width + x) = Some 0"
    using sobelPass_pixel [of x width y height blurredData] by auto
next
  fix x y :: int
  assume a: "1 \<le> x \<and> x \<le> width - 2 \<and> 1 \<le> y \<and> y \<le> height - 2"
  then have "sobelPass blurredData width height ! nat (y * width + x)
               = sobelGrad blurredData width x y"
    using sobelPass_pixel [of x width y height blurredData] by simp
  also have "\<dots> = Some (sqrt ((spec_gx blurredData width x y)\<^sup>2
                            + (spec_gy blurredData width x y)\<^sup>2))"
    using a by (intro sobelGrad_interior [OF assms]) simp_all
  finally show "sobelPass blurredData width height ! nat (y * width + x)
                 = Some (sqrt ((spec_gx blurredData width x y)\<^sup>2
                               + (spec_gy blurredData width x y)\<^sup>2))" .
qed

theorem edge_field_nonneg_border_zero_witness:
  "int (length demoData) = 4 * 3 * 3
   \<and> length (sobelPass demoData 3 3) = 9
   \<and> sobelPass demoData 3 3 ! 0 = Some 0
   \<and> sobelPass demoData 3 3 ! 5 = Some 0
   \<and> sobelPass demoData 3 3 ! 4
       = Some (sqrt ((spec_gx demoData 3 1 1)\<^sup>2 + (spec_gy demoData 3 1 1)\<^sup>2))
   \<and> (\<exists>v. sobelPass demoData 3 3 ! 4 = Some v \<and> 0 \<le> v)"
proof -
  have len: "int (length demoData) = 4 * 3 * 3"
    by (simp add: demoData_def)
  note t = edge_field_nonneg_border_zero [OF len]
  have l: "length (sobelPass demoData 3 3) = 9"
    using t by simp
  have z0: "sobelPass demoData 3 3 ! nat (0 * 3 + 0) = Some 0"
    using t by (elim conjE allE [of _ 0]) simp
  have z5: "sobelPass demoData 3 3 ! nat (1 * 3 + 2) = Some 0"
    using conjunct1 [OF conjunct2 [OF conjunct2 [OF t]], THEN spec, THEN spec, of 2 1]
    by simp
  have c: "sobelPass demoData 3 3 ! nat (1 * 3 + 1)
       = Some (sqrt ((spec_gx demoData 3 1 1)\<^sup>2 + (spec_gy demoData 3 1 1)\<^sup>2))"
    using conjunct2 [OF conjunct2 [OF conjunct2 [OF t]], THEN spec, THEN spec, of 1 1]
    by simp
  have n: "\<exists>v. sobelPass demoData 3 3 ! 4 = Some v \<and> 0 \<le> v"
    using conjunct1 [OF conjunct2 [OF t], THEN spec, of 4] l by simp
  from len l z0 z5 c n show ?thesis by simp
qed

subsection \<open>Animation sequencer\<close>

lemmas phase_defs = PHASE_IMAGE_def PHASE_SOBEL_def PHASE_POINTS_def PHASE_LINES_def
  PHASE_COLORS_def PHASE_FADE_EDGES_def totalDuration_def

lemma progress_from_branch:
  fixes e b d p :: real
  assumes "fr_progress F = Some (min 1 ((e - b) / d))"
    and "fr_phaseElapsed F = Some (e - b)"
    and "fr_elapsed F = e"
    and "phaseStart a (fr_status F) = b"
    and "phaseDuration a (fr_status F) = d"
    and "\<not> e < b" "e < b + d"
    and "fr_progress F = Some p"
  shows "\<exists>pe. fr_phaseElapsed F = Some pe
            \<and> pe = fr_elapsed F - phaseStart a (fr_status F)
            \<and> 0 \<le> pe
            \<and> 0 < phaseDuration a (fr_status F)
            \<and> p = min 1 (pe / phaseDuration a (fr_status F))
            \<and> 0 \<le> p \<and> p \<le> 1"
proof -
  have pe: "0 \<le> e - b" and d: "0 < d" using assms(6,7) by simp_all
  have p: "p = min 1 ((e - b) / d)" using assms(1,8) by simp
  have "0 \<le> (e - b) / d" using pe d by simp
  then have "0 \<le> p" "p \<le> 1" unfolding p by simp_all
  with pe d p show ?thesis
    unfolding assms(2,3,4,5) by simp
qed

text \<open>What one call of \<^const>\<open>animate\<close> computes when it computes a progress value.\<close>

lemma animate_progress:
  assumes "fr_progress (snd (animate a timestamp startTime)) = Some p"
  shows "\<exists>pe. fr_phaseElapsed (snd (animate a timestamp startTime)) = Some pe
            \<and> pe = fr_elapsed (snd (animate a timestamp startTime))
                     - phaseStart a (fr_status (snd (animate a timestamp startTime)))
            \<and> 0 \<le> pe
            \<and> 0 < phaseDuration a (fr_status (snd (animate a timestamp startTime)))
            \<and> p = min 1 (pe / phaseDuration a (fr_status (snd (animate a timestamp startTime))))
            \<and> 0 \<le> p \<and> p \<le> 1"
proof -
  define e where "e = timestamp - latch startTime timestamp"
  consider (img) "animationSpeed a = 0 \<or> e < PHASE_IMAGE a"
    | (sobel) "animationSpeed a \<noteq> 0" "\<not> e < PHASE_IMAGE a" "e < PHASE_IMAGE a + PHASE_SOBEL a"
    | (pts) "animationSpeed a \<noteq> 0" "\<not> e < PHASE_IMAGE a"
        "\<not> e < PHASE_IMAGE a + PHASE_SOBEL a"
        "e < PHASE_IMAGE a + PHASE_SOBEL a + PHASE_POINTS a"
    | (lines) "animationSpeed a \<noteq> 0" "\<not> e < PHASE_IMAGE a"
        "\<not> e < PHASE_IMAGE a + PHASE_SOBEL a"
        "\<not> e < PHASE_IMAGE a + PHASE_SOBEL a + PHASE_POINTS a"
        "e < PHASE_IMAGE a + PHASE_SOBEL a + PHASE_POINTS a + PHASE_LINES a"
    | (cols) "animationSpeed a \<noteq> 0" "\<not> e < PHASE_IMAGE a"
        "\<not> e < PHASE_IMAGE a + PHASE_SOBEL a"
        "\<not> e < PHASE_IMAGE a + PHASE_SOBEL a + PHASE_POINTS a"
        "\<not> e < PHASE_IMAGE a + PHASE_SOBEL a + PHASE_POINTS a + PHASE_LINES a"
        "e < PHASE_IMAGE a + PHASE_SOBEL a + PHASE_POINTS a + PHASE_LINES a + PHASE_COLORS a"
    | (fade) "animationSpeed a \<noteq> 0" "\<not> e < PHASE_IMAGE a"
        "\<not> e < PHASE_IMAGE a + PHASE_SOBEL a"
        "\<not> e < PHASE_IMAGE a + PHASE_SOBEL a + PHASE_POINTS a"
        "\<not> e < PHASE_IMAGE a + PHASE_SOBEL a + PHASE_POINTS a + PHASE_LINES a"
        "\<not> e < PHASE_IMAGE a + PHASE_SOBEL a + PHASE_POINTS a + PHASE_LINES a + PHASE_COLORS a"
        "e < totalDuration a"
    | (final) "animationSpeed a \<noteq> 0" "\<not> e < PHASE_IMAGE a"
        "\<not> e < PHASE_IMAGE a + PHASE_SOBEL a"
        "\<not> e < PHASE_IMAGE a + PHASE_SOBEL a + PHASE_POINTS a"
        "\<not> e < PHASE_IMAGE a + PHASE_SOBEL a + PHASE_POINTS a + PHASE_LINES a"
        "\<not> e < PHASE_IMAGE a + PHASE_SOBEL a + PHASE_POINTS a + PHASE_LINES a + PHASE_COLORS a"
        "\<not> e < totalDuration a"
    by blast
  then show ?thesis
  proof cases
    case img
    then show ?thesis using assms by (simp add: animate_def Let_def e_def)
  next
    case sobel
    show ?thesis
    proof (rule progress_from_branch [where e = e and b = "PHASE_IMAGE a"
            and d = "PHASE_SOBEL a"])
      show "fr_progress (snd (animate a timestamp startTime)) = Some p" by (rule assms)
    qed (use sobel in \<open>simp_all add: animate_def Let_def e_def [symmetric]\<close>)
  next
    case pts
    show ?thesis
    proof (rule progress_from_branch [where e = e and b = "PHASE_IMAGE a + PHASE_SOBEL a"
            and d = "PHASE_POINTS a"])
      show "fr_progress (snd (animate a timestamp startTime)) = Some p" by (rule assms)
    qed (use pts in \<open>simp_all add: animate_def Let_def e_def [symmetric]\<close>)
  next
    case lines
    show ?thesis
    proof (rule progress_from_branch [where e = e
            and b = "PHASE_IMAGE a + PHASE_SOBEL a + PHASE_POINTS a"
            and d = "PHASE_LINES a"])
      show "fr_progress (snd (animate a timestamp startTime)) = Some p" by (rule assms)
    qed (use lines in \<open>simp_all add: animate_def Let_def e_def [symmetric]\<close>)
  next
    case cols
    show ?thesis
    proof (rule progress_from_branch [where e = e
            and b = "PHASE_IMAGE a + PHASE_SOBEL a + PHASE_POINTS a + PHASE_LINES a"
            and d = "PHASE_COLORS a"])
      show "fr_progress (snd (animate a timestamp startTime)) = Some p" by (rule assms)
    qed (use cols in \<open>simp_all add: animate_def Let_def e_def [symmetric]\<close>)
  next
    case fade
    show ?thesis
    proof (rule progress_from_branch [where e = e
            and b = "PHASE_IMAGE a + PHASE_SOBEL a + PHASE_POINTS a + PHASE_LINES a
                       + PHASE_COLORS a"
            and d = "PHASE_FADE_EDGES a"])
      show "fr_progress (snd (animate a timestamp startTime)) = Some p" by (rule assms)
    qed (use fade in \<open>simp_all add: animate_def Let_def e_def [symmetric] totalDuration_def\<close>)
  next
    case final
    then show ?thesis using assms by (simp add: animate_def Let_def e_def [symmetric])
  qed
qed


lemma animate_state: "fst (animate a timestamp startTime) = Some (latch startTime timestamp)"
  by (simp add: animate_def Let_def)

lemma animate_elapsed:
  "fr_elapsed (snd (animate a timestamp startTime)) = timestamp - latch startTime timestamp"
  by (simp add: animate_def Let_def)

lemma runTicks_frames:
  "fr \<in> set (runTicks a startTime ts) \<Longrightarrow> \<exists>t st. fr = snd (animate a t st)"
proof (induction ts arbitrary: startTime)
  case Nil
  then show ?case by simp
next
  case (Cons t ts)
  then show ?case
    by (cases "animate a t startTime") (auto split: if_splits, metis snd_conv)
qed

lemma latch_le:
  "notAfter startTime (t # ts) \<Longrightarrow> latch startTime t \<le> t"
  by (auto simp: notAfter_def latch_def split: option.splits)

lemma notAfter_latch:
  assumes "sorted (t # ts)" "notAfter startTime (t # ts)"
  shows "notAfter (Some (latch startTime t)) ts"
proof -
  have "latch startTime t \<le> t" by (rule latch_le [OF assms(2)])
  moreover have "\<forall>u \<in> set ts. t \<le> u" using assms(1) by simp
  ultimately show ?thesis by (auto simp: notAfter_def list_all_iff)
qed

lemma runTicks_elapsed_nonneg:
  "sorted ts \<Longrightarrow> notAfter startTime ts \<Longrightarrow> fr \<in> set (runTicks a startTime ts)
     \<Longrightarrow> 0 \<le> fr_elapsed fr"
proof (induction ts arbitrary: startTime)
  case Nil
  then show ?case by simp
next
  case (Cons t ts)
  obtain st' F where an: "animate a t startTime = (st', F)"
    by (cases "animate a t startTime")
  have st': "st' = Some (latch startTime t)"
    using animate_state [of a t startTime] an by simp
  have F: "0 \<le> fr_elapsed F"
    using animate_elapsed [of a t startTime] an latch_le [OF Cons.prems(2)] by simp
  have rest: "0 \<le> fr_elapsed fr" if "fr \<in> set (runTicks a st' ts)"
    using Cons.IH [OF _ _ that] Cons.prems(1) notAfter_latch [OF Cons.prems(1,2)] st'
    by simp
  from Cons.prems(3) an have "fr = F \<or> fr \<in> set (runTicks a st' ts)"
    by (auto split: if_splits)
  with F rest show ?case by blast
qed

text \<open>
  C8. On every tick of a run, from any start state: a progress value is computed in the
  five phases between the first and the last; whenever one is computed,
  \<^verbatim>\<open>phaseElapsed\<close> is \<^verbatim>\<open>elapsed\<close> minus the cumulative duration of the earlier phases and is
  not negative, the phase duration is positive, the progress is
  \<open>min 1 (phaseElapsed / duration)\<close>, and it lies in \<open>[0, 1]\<close>. When the timestamps never
  decrease and the run starts with no start time latched, \<^verbatim>\<open>elapsed\<close> is never negative.
\<close>

theorem progress_in_unit_interval:
  "(\<forall>fr \<in> set (runTicks a startTime ts). \<forall>p. fr_progress fr = Some p \<longrightarrow>
      (\<exists>pe. fr_phaseElapsed fr = Some pe
           \<and> pe = fr_elapsed fr - phaseStart a (fr_status fr)
           \<and> 0 \<le> pe
           \<and> 0 < phaseDuration a (fr_status fr)
           \<and> p = min 1 (pe / phaseDuration a (fr_status fr))
           \<and> 0 \<le> p \<and> p \<le> 1))
   \<and> (sorted ts \<longrightarrow> (\<forall>fr \<in> set (runTicks a None ts). 0 \<le> fr_elapsed fr))"
proof (intro conjI ballI allI impI)
  fix fr p
  assume "fr \<in> set (runTicks a startTime ts)" and p: "fr_progress fr = Some p"
  then obtain t st where "fr = snd (animate a t st)"
    using runTicks_frames by blast
  with p animate_progress [of a t st p]
  show "\<exists>pe. fr_phaseElapsed fr = Some pe
           \<and> pe = fr_elapsed fr - phaseStart a (fr_status fr)
           \<and> 0 \<le> pe
           \<and> 0 < phaseDuration a (fr_status fr)
           \<and> p = min 1 (pe / phaseDuration a (fr_status fr))
           \<and> 0 \<le> p \<and> p \<le> 1"
    by simp
next
  fix fr
  assume "sorted ts" "fr \<in> set (runTicks a None ts)"
  then show "0 \<le> fr_elapsed fr"
    using runTicks_elapsed_nonneg [of ts None fr a] by (simp add: notAfter_def)
qed

lemma demo_run:
  "map (\<lambda>fr. (fr_status fr, fr_elapsed fr, fr_phaseElapsed fr, fr_progress fr))
       (runTicks demoAnimation None [1000, 3000])
     = [(SourceImage, 0, None, None), (EdgeVisualization, 2000, Some 500, Some (1 / 4))]"
  by (simp add: animate_def Let_def latch_def phase_defs demoAnimation_def)

theorem progress_in_unit_interval_witness:
  "sorted [1000, 3000 :: real]
   \<and> map (\<lambda>fr. (fr_status fr, fr_elapsed fr, fr_phaseElapsed fr, fr_progress fr))
         (runTicks demoAnimation None [1000, 3000])
       = [(SourceImage, 0, None, None), (EdgeVisualization, 2000, Some 500, Some (1 / 4))]
   \<and> list_all (\<lambda>fr. 0 \<le> fr_elapsed fr) (runTicks demoAnimation None [1000, 3000])
   \<and> list_all (\<lambda>fr. fr_progress fr = None
                      \<or> (\<exists>p. fr_progress fr = Some p \<and> 0 \<le> p \<and> p \<le> 1))
        (runTicks demoAnimation None [1000, 3000])"
proof -
  have s: "sorted [1000, 3000 :: real]" by simp
  note t = progress_in_unit_interval [of demoAnimation None "[1000, 3000]"]
  have e: "list_all (\<lambda>fr. 0 \<le> fr_elapsed fr) (runTicks demoAnimation None [1000, 3000])"
    using conjunct2 [OF t] s unfolding list_all_iff by blast
  have p: "list_all (\<lambda>fr. fr_progress fr = None
                      \<or> (\<exists>p. fr_progress fr = Some p \<and> 0 \<le> p \<and> p \<le> 1))
        (runTicks demoAnimation None [1000, 3000])"
    unfolding list_all_iff
  proof
    fix fr assume fr: "fr \<in> set (runTicks demoAnimation None [1000, 3000])"
    show "fr_progress fr = None \<or> (\<exists>p. fr_progress fr = Some p \<and> 0 \<le> p \<and> p \<le> 1)"
    proof (cases "fr_progress fr")
      case None
      then show ?thesis by simp
    next
      case (Some p)
      with conjunct1 [OF t] fr show ?thesis by blast
    qed
  qed
  from s demo_run e p show ?thesis by blast
qed







end
